theory Spec2Isabelle
  imports Main "HOL-Library.AList"
begin

section \<open>Types, values and errors\<close>

text \<open>
  The kinds of \<^verbatim>\<open>reflect.Kind\<close> that \<^verbatim>\<open>populateStruct\<close>, \<^verbatim>\<open>populateDefaultType\<close> and
  \<^verbatim>\<open>populateSliceType\<close> switch on; \<open>IntK\<close> is \<^verbatim>\<open>reflect.Int\<close>.
\<close>

datatype Kind =
    Invalid | Bool
  | IntK | Int8 | Int16 | Int32 | Int64
  | Uint | Uint8 | Uint16 | Uint32 | Uint64 | Uintptr
  | Float32 | Float64 | Complex64 | Complex128
  | Array | Chan | Func | Interface | Map | Ptr | Slice | String | Struct | UnsafePointer

text \<open>
  Of a field's \<^verbatim>\<open>reflect.Type\<close> the code reads \<^verbatim>\<open>Kind()\<close> and, for a slice,
  \<^verbatim>\<open>Elem().Kind()\<close>.
\<close>

record Type =
  Kind :: Kind
  ElemKind :: Kind

text \<open>
  The content of a field. Integers are kept as mathematical numbers: they are only ever
  produced by a range-checked parse. The type \<open>'f\<close> stands for Go's floating-point numbers.
\<close>

datatype 'f Value =
    BoolV bool | IntV int | UintV nat | FloatV 'f | StringV string
  | SliceV "'f Value list" | OtherV

text \<open>
  The three package errors, the two errors of \<^verbatim>\<open>strconv\<close>, an error returned by a source,
  and the runtime panic of a method call on the nil interface that \<^verbatim>\<open>Sources[o]\<close> yields for an
  unregistered name.
\<close>

datatype error =
    ErrInvalidOrder | ErrUnsupportedFieldType | ErrInvalidEnvPrefix
  | ErrSyntax | ErrRange | SourceError string | Panic

section \<open>The standard library's parsers\<close>

definition isDigit :: "char \<Rightarrow> bool" where
  "isDigit c = (c \<in> set ''0123456789'')"

definition isUpper :: "char \<Rightarrow> bool" where
  "isUpper c = (c \<in> set ''ABCDEFGHIJKLMNOPQRSTUVWXYZ'')"

definition isLower :: "char \<Rightarrow> bool" where
  "isLower c = (c \<in> set ''abcdefghijklmnopqrstuvwxyz'')"

definition digitVal :: "char \<Rightarrow> nat" where
  "digitVal c = of_char c - 48"

text \<open>
  \<^verbatim>\<open>strconv.ParseUint(s, 10, bitSize)\<close>: digits only, read left to right; the first character
  that is no digit is a syntax error, the first prefix above the largest value a range error.
\<close>

fun parseDigits :: "nat \<Rightarrow> string \<Rightarrow> nat \<Rightarrow> error + nat" where
  "parseDigits maxVal [] n = Inr n"
| "parseDigits maxVal (c # cs) n =
     (if \<not> isDigit c then Inl ErrSyntax
      else if n * 10 + digitVal c > maxVal then Inl ErrRange
      else parseDigits maxVal cs (n * 10 + digitVal c))"

definition ParseUint :: "string \<Rightarrow> nat \<Rightarrow> error + nat" where
  "ParseUint s bitSize =
     (if s = [] then Inl ErrSyntax else parseDigits (2 ^ bitSize - 1) s 0)"

text \<open>
  \<^verbatim>\<open>strconv.ParseInt(s, 10, bitSize)\<close>: an optional sign, then \<^verbatim>\<open>ParseUint\<close> of the rest at the
  same \<^verbatim>\<open>bitSize\<close>, whose syntax error is returned and whose range error leaves the largest
  value of that width, then the range check against \<open>2 ^ (bitSize - 1)\<close>.
\<close>

definition ParseInt :: "string \<Rightarrow> nat \<Rightarrow> error + int" where
  "ParseInt s bitSize =
     (if s = [] then Inl ErrSyntax
      else
        let neg = (hd s = CHR ''-'');
            s1 = (if hd s = CHR ''+'' \<or> hd s = CHR ''-'' then tl s else s);
            r = ParseUint s1 bitSize
        in if r = Inl ErrSyntax then Inl ErrSyntax
           else
             let un = (case r of Inr n \<Rightarrow> n | Inl e \<Rightarrow> 2 ^ bitSize - 1);
                 cutoff = (2::nat) ^ (bitSize - 1)
             in if \<not> neg \<and> un \<ge> cutoff then Inl ErrRange
                else if neg \<and> un > cutoff then Inl ErrRange
                else Inr (if neg then - int un else int un))"

text \<open>\<^verbatim>\<open>strconv.ParseBool\<close> accepts twelve literals.\<close>

definition ParseBool :: "string \<Rightarrow> error + bool" where
  "ParseBool s =
     (if s \<in> set [''1'', ''t'', ''T'', ''TRUE'', ''true'', ''True''] then Inr True
      else if s \<in> set [''0'', ''f'', ''F'', ''FALSE'', ''false'', ''False''] then Inr False
      else Inl ErrSyntax)"

text \<open>
  \<^verbatim>\<open>strconv.Unquote\<close> and \<^verbatim>\<open>strconv.ParseFloat\<close> are parameters of the model: the engine
  passes strings to them and stores what they return.
\<close>

record 'f strconv =
  Unquote :: "string \<Rightarrow> error + string"
  ParseFloat :: "string \<Rightarrow> nat \<Rightarrow> error + 'f"

section \<open>The package's regular expressions\<close>


text \<open>
  \<^verbatim>\<open>argRe = regexp.MustCompile("([a-z]+)([A-Z][a-z]+)")\<close>, not anchored. At a given start the
  first group takes the whole run of lower-case letters (a shorter run would be followed by a
  lower-case letter, not by \<^verbatim>\<open>[A-Z]\<close>), the second group one upper-case letter and the whole
  run of lower-case letters after it. \<^verbatim>\<open>FindStringSubmatch\<close> returns the groups of the
  leftmost match.
\<close>

definition argRe_matchAt :: "string \<Rightarrow> (string \<times> string) option" where
  "argRe_matchAt s =
     (let p = takeWhile isLower s
      in case dropWhile isLower s of
           [] \<Rightarrow> None
         | u # r \<Rightarrow>
             if p \<noteq> [] \<and> isUpper u \<and> takeWhile isLower r \<noteq> []
             then Some (p, u # takeWhile isLower r) else None)"

fun argRe_FindStringSubmatch :: "string \<Rightarrow> (string \<times> string) option" where
  "argRe_FindStringSubmatch [] = None"
| "argRe_FindStringSubmatch (c # cs) =
     (case argRe_matchAt (c # cs) of
        Some m \<Rightarrow> Some m
      | None \<Rightarrow> argRe_FindStringSubmatch cs)"

text \<open>\<^verbatim>\<open>strings.ToLower\<close> on the letters the second group consists of.\<close>

definition toLowerChar :: "char \<Rightarrow> char" where
  "toLowerChar c =
     (case map_of (zip ''ABCDEFGHIJKLMNOPQRSTUVWXYZ'' ''abcdefghijklmnopqrstuvwxyz'') c of
        Some l \<Rightarrow> l
      | None \<Rightarrow> c)"

definition ToLower :: "string \<Rightarrow> string" where
  "ToLower s = map toLowerChar s"

text \<open>\<^verbatim>\<open>strings.Split(s, ",")\<close> for a one-character separator: never an empty list.\<close>

fun Split :: "string \<Rightarrow> char \<Rightarrow> string list" where
  "Split [] sep = [[]]"
| "Split (c # cs) sep =
     (if c = sep then [] # Split cs sep
      else (case Split cs sep of
              p # ps \<Rightarrow> (c # p) # ps
            | [] \<Rightarrow> [[c]]))"

section \<open>The directive parser\<close>

text \<open>
  The loop \<^verbatim>\<open>for i < len(tag) && tag[i] != '"' { if tag[i] == '\\' { i++ }; i++ }\<close> of
  \<^verbatim>\<open>getStructTags\<close>, started at \<open>i = 1\<close>.
\<close>

function scanValue :: "string \<Rightarrow> nat \<Rightarrow> nat" where
  "scanValue tag i =
     (if i < length tag \<and> tag ! i \<noteq> CHR 0x22
      then scanValue tag (if tag ! i = CHR 0x5C then i + 2 else i + 1)
      else i)"
  by pat_completeness auto
termination
  by (relation "measure (\<lambda>(tag, i). length tag - i)") auto

declare scanValue.simps [simp del]

definition isNameChar :: "char \<Rightarrow> bool" where
  "isNameChar c = (c \<noteq> CHR '' '' \<and> c \<noteq> CHR '':'' \<and> c \<noteq> CHR 0x22)"

text \<open>
  One round of the loop of \<^verbatim>\<open>getStructTags\<close> up to its three \<^verbatim>\<open>break\<close>s: \<open>None\<close> where the
  loop breaks, else the name, the quoted value and the rest of the tag.
\<close>

definition nextPair :: "string \<Rightarrow> (string \<times> string \<times> string) option" where
  "nextPair tag =
     (let tag1 = dropWhile (\<lambda>c. c = CHR '' '') tag
      in if tag1 = [] then None
         else
           let i = length (takeWhile isNameChar tag1)
           in if i + 1 \<ge> length tag1 \<or> tag1 ! i \<noteq> CHR '':'' \<or> tag1 ! (i + 1) \<noteq> CHR 0x22
              then None
              else
                let name = take i tag1;
                    tag2 = drop (i + 1) tag1;
                    j = scanValue tag2 1
                in if j \<ge> length tag2 then None
                   else Some (name, take (j + 1) tag2, drop (j + 1) tag2))"

text \<open>
  A Go map is an association list with distinct keys: \<open>AList.update\<close> is \<^verbatim>\<open>m[name] = value\<close>
  and \<open>map_of\<close> the lookup. The error of \<^verbatim>\<open>strconv.Unquote\<close> is dropped by the code, which
  then stores the empty string.
\<close>

function getStructTags_loop ::
  "'f strconv \<Rightarrow> string \<Rightarrow> (string \<times> string) list \<Rightarrow> (string \<times> string) list" where
  "getStructTags_loop lib tag m =
     (if tag = [] then m
      else
        (case nextPair tag of
           None \<Rightarrow> m
         | Some (name, qvalue, tag') \<Rightarrow>
             getStructTags_loop lib tag'
               (AList.update name (case Unquote lib qvalue of Inr v \<Rightarrow> v | Inl e \<Rightarrow> []) m)))"
  by pat_completeness auto
termination
proof (relation "measure (\<lambda>(lib, tag, m). length tag)", goal_cases)
  case 1
  show ?case by simp
next
  case (2 lib tag m p name r qvalue tag')
  then have np: "nextPair tag = Some (name, qvalue, tag')" by simp
  have "length (dropWhile (\<lambda>c. c = CHR '' '') tag) \<le> length tag"
    by (rule length_dropWhile_le)
  with np have "length tag' < length tag"
    by (auto simp: nextPair_def Let_def split: if_splits)
  then show ?case by simp
qed

declare getStructTags_loop.simps [simp del]

definition getStructTags :: "'f strconv \<Rightarrow> string \<Rightarrow> (string \<times> string) list" where
  "getStructTags lib tag = getStructTags_loop lib tag []"

section \<open>Coercion of one source value\<close>

definition numVal :: "string \<Rightarrow> string" where
  "numVal i = (if length i = 0 then ''0'' else i)"

text \<open>
  The \<^verbatim>\<open>switch\<close> of \<^verbatim>\<open>populateDefaultType\<close> on the field's kind: the value the branch
  hands to \<^verbatim>\<open>SetBool\<close>, \<^verbatim>\<open>SetInt\<close>, \<^verbatim>\<open>SetUint\<close>, \<^verbatim>\<open>SetFloat\<close> or \<^verbatim>\<open>SetString\<close>, or the error
  it returns.
\<close>

definition setInt :: "string \<Rightarrow> nat \<Rightarrow> error + 'f Value" where
  "setInt val bitSize = (case ParseInt (numVal val) bitSize of Inl e \<Rightarrow> Inl e | Inr i \<Rightarrow> Inr (IntV i))"

definition setUint :: "string \<Rightarrow> nat \<Rightarrow> error + 'f Value" where
  "setUint val bitSize = (case ParseUint (numVal val) bitSize of Inl e \<Rightarrow> Inl e | Inr i \<Rightarrow> Inr (UintV i))"

definition setFloat :: "'f strconv \<Rightarrow> string \<Rightarrow> nat \<Rightarrow> error + 'f Value" where
  "setFloat lib val bitSize =
     (case ParseFloat lib (numVal val) bitSize of Inl e \<Rightarrow> Inl e | Inr f \<Rightarrow> Inr (FloatV f))"

definition populateDefaultType_switch :: "'f strconv \<Rightarrow> Kind \<Rightarrow> string \<Rightarrow> error + 'f Value" where
  "populateDefaultType_switch lib k val =
     (case k of
        Bool \<Rightarrow>
          (case ParseBool (if length val = 0 then ''false'' else val) of
             Inl e \<Rightarrow> Inl e
           | Inr b \<Rightarrow> Inr (BoolV b))
      | IntK \<Rightarrow> setInt val 64
      | Int8 \<Rightarrow> setInt val 8
      | Int16 \<Rightarrow> setInt val 16
      | Int32 \<Rightarrow> setInt val 32
      | Int64 \<Rightarrow> setInt val 64
      | Uint \<Rightarrow> setUint val 64
      | Uint8 \<Rightarrow> setUint val 8
      | Uint16 \<Rightarrow> setUint val 16
      | Uint32 \<Rightarrow> setUint val 32
      | Uint64 \<Rightarrow> setUint val 64
      | Float32 \<Rightarrow> setFloat lib val 32
      | Float64 \<Rightarrow> setFloat lib val 64
      | String \<Rightarrow> Inr (StringV val)
      | _ \<Rightarrow> Inl ErrUnsupportedFieldType)"

text \<open>
  The Bool branch assigns \<^verbatim>\<open>val = "false"\<close> when the value is empty, after
  \<^verbatim>\<open>prevVal = &val\<close> has been taken: the string \<^verbatim>\<open>prevVal\<close> points to in the next round is
  the content of \<^verbatim>\<open>val\<close> after the switch.
\<close>

definition valAfterSwitch :: "Kind \<Rightarrow> string \<Rightarrow> string" where
  "valAfterSwitch k val = (if k = Bool \<and> length val = 0 then ''false'' else val)"

text \<open>
  The inner \<^verbatim>\<open>switch\<close> of \<^verbatim>\<open>populateSliceType\<close> has a branch for these element kinds; its
  \<^verbatim>\<open>default\<close> branch is empty.
\<close>

definition sliceElemKinds :: "Kind list" where
  "sliceElemKinds = [String, IntK, Int8, Int16, Int32, Int64, Uint, Uint8, Uint16, Uint32, Uint64]"

definition sliceElem :: "Kind \<Rightarrow> string \<Rightarrow> error + 'f Value" where
  "sliceElem ek s =
     (case ek of
        String \<Rightarrow> Inr (StringV s)
      | IntK \<Rightarrow> setInt s 64
      | Int8 \<Rightarrow> setInt s 8
      | Int16 \<Rightarrow> setInt s 16
      | Int32 \<Rightarrow> setInt s 32
      | Int64 \<Rightarrow> setInt s 64
      | Uint \<Rightarrow> setUint s 64
      | Uint8 \<Rightarrow> setUint s 8
      | Uint16 \<Rightarrow> setUint s 16
      | Uint32 \<Rightarrow> setUint s 32
      | Uint64 \<Rightarrow> setUint s 64
      | _ \<Rightarrow> Inl ErrUnsupportedFieldType)"

section \<open>Plans, records and sources\<close>

text \<open>
  A record type is the list of its fields; the record itself is a store of field contents,
  indexed by field position, that the engine writes through \<^verbatim>\<open>goValue\<close>. The records covered
  have no embedded struct, so that \<^verbatim>\<open>FieldByName\<close> is a search of this list, and their fields
  other than \<^verbatim>\<open>gofigure\<close> are exported and of predeclared types, on which the setters of
  \<^verbatim>\<open>reflect\<close> do not panic. The type \<^verbatim>\<open>int\<close> has 64 bits.
\<close>

record StructField =
  Name :: string
  Typ :: Type
  Tag :: string

type_synonym 'f Store = "nat \<Rightarrow> 'f Value"

record Gofiguritem =
  keys :: "(string \<times> string) list"
  field :: string
  goField :: StructField
  goValue :: nat

record Gofiguration =
  order :: "string list"
  params :: "string \<rightharpoonup> (string \<times> string) list"
  fieldsM :: "(string \<times> Gofiguritem) list"

text \<open>
  A source is its five methods over a state \<open>'w\<close> shared by all sources (the process
  environment, the command line, the sources' own fields). \<^verbatim>\<open>Init\<close> receives
  \<^verbatim>\<open>gfg.params[o]\<close>, which is the nil map when the plan has no parameters for the source.
\<close>

record 'w Source =
  Init :: "(string \<times> string) list option \<Rightarrow> 'w \<Rightarrow> error option \<times> 'w"
  Register :: "string \<Rightarrow> string \<Rightarrow> (string \<times> string) list \<Rightarrow> Type \<Rightarrow> 'w \<Rightarrow> error option \<times> 'w"
  Get :: "string \<Rightarrow> string option \<Rightarrow> 'w \<Rightarrow> (error + string) \<times> 'w"
  GetArray :: "string \<Rightarrow> string list option \<Rightarrow> 'w \<Rightarrow> (error + string list) \<times> 'w"
  Cleanup :: "'w \<Rightarrow> 'w"

text \<open>
  The calls made on sources are logged, in the order they are made, next to the sources'
  state: the log is what "called before" and "called once" are stated on.
\<close>

datatype Event =
    EvInit string
  | EvRegister string string
  | EvGet string string "string option"
  | EvGetArray string string "string list option"
  | EvCleanup string

type_synonym 'w World = "'w \<times> Event list"

definition callInit ::
  "(string \<rightharpoonup> 'w Source) \<Rightarrow> string \<Rightarrow> (string \<times> string) list option \<Rightarrow> 'w World
    \<Rightarrow> error option \<times> 'w World" where
  "callInit S o' args W =
     (case S o' of
        None \<Rightarrow> (Some Panic, W)
      | Some src \<Rightarrow>
          (case Init src args (fst W) of (err, w') \<Rightarrow> (err, (w', snd W @ [EvInit o']))))"

definition callRegister ::
  "(string \<rightharpoonup> 'w Source) \<Rightarrow> string \<Rightarrow> string \<Rightarrow> (string \<times> string) list \<Rightarrow> Type \<Rightarrow> 'w World
    \<Rightarrow> error option \<times> 'w World" where
  "callRegister S o' kn ks ty W =
     (case S o' of
        None \<Rightarrow> (Some Panic, W)
      | Some src \<Rightarrow>
          (case Register src kn [] ks ty (fst W) of
             (err, w') \<Rightarrow> (err, (w', snd W @ [EvRegister o' kn]))))"

definition callGet ::
  "(string \<rightharpoonup> 'w Source) \<Rightarrow> string \<Rightarrow> string \<Rightarrow> string option \<Rightarrow> 'w World
    \<Rightarrow> (error + string) \<times> 'w World" where
  "callGet S source kn prevVal W =
     (case S source of
        None \<Rightarrow> (Inl Panic, W)
      | Some src \<Rightarrow>
          (case Get src kn prevVal (fst W) of
             (r, w') \<Rightarrow> (r, (w', snd W @ [EvGet source kn prevVal]))))"

definition callGetArray ::
  "(string \<rightharpoonup> 'w Source) \<Rightarrow> string \<Rightarrow> string \<Rightarrow> string list option \<Rightarrow> 'w World
    \<Rightarrow> (error + string list) \<times> 'w World" where
  "callGetArray S source kn prevVal W =
     (case S source of
        None \<Rightarrow> (Inl Panic, W)
      | Some src \<Rightarrow>
          (case GetArray src kn prevVal (fst W) of
             (r, w') \<Rightarrow> (r, (w', snd W @ [EvGetArray source kn prevVal]))))"

definition callCleanup ::
  "(string \<rightharpoonup> 'w Source) \<Rightarrow> string \<Rightarrow> 'w World \<Rightarrow> error option \<times> 'w World" where
  "callCleanup S o' W =
     (case S o' of
        None \<Rightarrow> (Some Panic, W)
      | Some src \<Rightarrow> (None, (Cleanup src (fst W), snd W @ [EvCleanup o'])))"

text \<open>
  Go leaves the order of \<^verbatim>\<open>range\<close> over a map open. The entries are visited sorted by a rank
  of their keys; the rank is a parameter, and every statement below holds for all ranks.
\<close>

definition rangeMap :: "(string \<Rightarrow> nat) \<Rightarrow> (string \<times> 'a) list \<Rightarrow> (string \<times> 'a) list" where
  "rangeMap rank m = sort_key (\<lambda>kv. rank (fst kv)) m"

section \<open>Building the plan\<close>

text \<open>
  The body of \<^verbatim>\<open>for name, value := range tags\<close> in \<^verbatim>\<open>parseGofigureField\<close>, over the entries
  in the order they are visited.
\<close>

fun parseGofigureField_range ::
  "(string \<rightharpoonup> 'w Source) \<Rightarrow> (string \<times> string) list \<Rightarrow> Gofiguration \<Rightarrow> error + Gofiguration" where
  "parseGofigureField_range S [] gfg = Inr gfg"
| "parseGofigureField_range S ((name, val) # rest) gfg =
     (if name = ''order'' then
        (let oParts = Split val (CHR '','')
         in if list_ex (\<lambda>p. S p = None) oParts then Inl ErrInvalidOrder
            else parseGofigureField_range S rest (gfg\<lparr>order := oParts\<rparr>))
      else
        (case argRe_FindStringSubmatch name of
           Some (m1, m2) \<Rightarrow>
             parseGofigureField_range S rest
               (gfg\<lparr>params := (params gfg)
                  (m1 \<mapsto> AList.update (ToLower m2) val
                            (case params gfg m1 of None \<Rightarrow> [] | Some m \<Rightarrow> m))\<rparr>)
         | None \<Rightarrow> parseGofigureField_range S rest gfg))"

definition FieldByName :: "StructField list \<Rightarrow> string \<Rightarrow> StructField option" where
  "FieldByName t n = find (\<lambda>f. Name f = n) t"

definition parseGofigureField ::
  "(string \<rightharpoonup> 'w Source) \<Rightarrow> 'f strconv \<Rightarrow> (string \<Rightarrow> nat) \<Rightarrow> StructField list \<Rightarrow> Gofiguration
    \<Rightarrow> error + Gofiguration" where
  "parseGofigureField S lib rank t gfg =
     (case FieldByName t ''gofigure'' of
        Some gf \<Rightarrow> parseGofigureField_range S (rangeMap rank (getStructTags lib (Tag gf))) gfg
      | None \<Rightarrow> Inr gfg)"

fun parseFields_loop ::
  "'f strconv \<Rightarrow> StructField list \<Rightarrow> nat list \<Rightarrow> Gofiguration \<Rightarrow> Gofiguration" where
  "parseFields_loop lib t [] gfg = gfg"
| "parseFields_loop lib t (i # is) gfg =
     (let f = Name (t ! i)
      in if f = ''gofigure'' then parseFields_loop lib t is gfg
         else
           let gfi = \<lparr>keys = (if length (Tag (t ! i)) > 0 then getStructTags lib (Tag (t ! i)) else []),
                      field = f, goField = t ! i, goValue = i\<rparr>
           in parseFields_loop lib t is (gfg\<lparr>fieldsM := AList.update f gfi (fieldsM gfg)\<rparr>))"

definition parseFields :: "'f strconv \<Rightarrow> StructField list \<Rightarrow> Gofiguration \<Rightarrow> Gofiguration" where
  "parseFields lib t gfg = parseFields_loop lib t [0..<length t] gfg"

text \<open>
  \<^verbatim>\<open>ParseStruct\<close> reads the record's type \<open>t\<close> only; \<open>D\<close> is \<^verbatim>\<open>DefaultOrder\<close> and \<open>S\<close> is
  \<^verbatim>\<open>Sources\<close>, the package's two variables.
\<close>

definition ParseStruct ::
  "(string \<rightharpoonup> 'w Source) \<Rightarrow> string list \<Rightarrow> 'f strconv \<Rightarrow> (string \<Rightarrow> nat) \<Rightarrow> StructField list
    \<Rightarrow> error + Gofiguration" where
  "ParseStruct S D lib rank t =
     (case parseGofigureField S lib rank t \<lparr>order = D, params = Map.empty, fieldsM = []\<rparr> of
        Inl err \<Rightarrow> Inl err
      | Inr gfg \<Rightarrow> Inr (parseFields lib t gfg))"

section \<open>The life cycle of the sources\<close>

fun cleanupSources_loop ::
  "(string \<rightharpoonup> 'w Source) \<Rightarrow> string list \<Rightarrow> 'w World \<Rightarrow> error option \<times> 'w World" where
  "cleanupSources_loop S [] W = (None, W)"
| "cleanupSources_loop S (o' # os) W =
     (case callCleanup S o' W of
        (Some p, W1) \<Rightarrow> (Some p, W1)
      | (None, W1) \<Rightarrow> cleanupSources_loop S os W1)"

definition cleanupSources ::
  "(string \<rightharpoonup> 'w Source) \<Rightarrow> Gofiguration \<Rightarrow> 'w World \<Rightarrow> error option \<times> 'w World" where
  "cleanupSources S gfg W = cleanupSources_loop S (order gfg) W"

fun initSources_loop ::
  "(string \<rightharpoonup> 'w Source) \<Rightarrow> Gofiguration \<Rightarrow> string list \<Rightarrow> 'w World \<Rightarrow> error option \<times> 'w World" where
  "initSources_loop S gfg [] W = (None, W)"
| "initSources_loop S gfg (o' # os) W =
     (case callInit S o' (params gfg o') W of
        (Some err, W1) \<Rightarrow> (Some err, W1)
      | (None, W1) \<Rightarrow> initSources_loop S gfg os W1)"

definition initSources ::
  "(string \<rightharpoonup> 'w Source) \<Rightarrow> Gofiguration \<Rightarrow> 'w World \<Rightarrow> error option \<times> 'w World" where
  "initSources S gfg W = initSources_loop S gfg (order gfg) W"

text \<open>The key a field is looked up under in a source: \<^verbatim>\<open>gfi.keys[o]\<close> if present, else the name.\<close>

definition keyName :: "Gofiguritem \<Rightarrow> string \<Rightarrow> string" where
  "keyName gfi o' = (case map_of (keys gfi) o' of Some k \<Rightarrow> k | None \<Rightarrow> field gfi)"

fun registerFields_order ::
  "(string \<rightharpoonup> 'w Source) \<Rightarrow> Gofiguritem \<Rightarrow> string list \<Rightarrow> 'w World \<Rightarrow> error option \<times> 'w World" where
  "registerFields_order S gfi [] W = (None, W)"
| "registerFields_order S gfi (o' # os) W =
     (case callRegister S o' (keyName gfi o') (keys gfi) (Typ (goField gfi)) W of
        (Some err, W1) \<Rightarrow> (Some err, W1)
      | (None, W1) \<Rightarrow> registerFields_order S gfi os W1)"

fun registerFields_loop ::
  "(string \<rightharpoonup> 'w Source) \<Rightarrow> string list \<Rightarrow> Gofiguritem list \<Rightarrow> 'w World \<Rightarrow> error option \<times> 'w World" where
  "registerFields_loop S ord [] W = (None, W)"
| "registerFields_loop S ord (gfi # gfis) W =
     (case registerFields_order S gfi ord W of
        (Some err, W1) \<Rightarrow> (Some err, W1)
      | (None, W1) \<Rightarrow> registerFields_loop S ord gfis W1)"

definition registerFields ::
  "(string \<rightharpoonup> 'w Source) \<Rightarrow> (string \<Rightarrow> nat) \<Rightarrow> Gofiguration \<Rightarrow> 'w World \<Rightarrow> error option \<times> 'w World" where
  "registerFields S rank gfg W =
     registerFields_loop S (order gfg) (map snd (rangeMap rank (fieldsM gfg))) W"

section \<open>Population\<close>

text \<open>
  \<^verbatim>\<open>populateDefaultType\<close>: one round per source. The value is parsed and the field set in
  every round.
\<close>

fun populateDefaultType_loop ::
  "(string \<rightharpoonup> 'w Source) \<Rightarrow> 'f strconv \<Rightarrow> Gofiguritem \<Rightarrow> string list \<Rightarrow> string option
    \<Rightarrow> 'f Store \<times> 'w World \<Rightarrow> error option \<times> 'f Store \<times> 'w World" where
  "populateDefaultType_loop S lib gfi [] prevVal (v, W) = (None, v, W)"
| "populateDefaultType_loop S lib gfi (source # rest) prevVal (v, W) =
     (case callGet S source (keyName gfi source) prevVal W of
        (Inl err, W1) \<Rightarrow> (Some err, v, W1)
      | (Inr val, W1) \<Rightarrow>
          (case populateDefaultType_switch lib (Kind (Typ (goField gfi))) val of
             Inl err \<Rightarrow> (Some err, v, W1)
           | Inr x \<Rightarrow>
               populateDefaultType_loop S lib gfi rest
                 (Some (valAfterSwitch (Kind (Typ (goField gfi))) val))
                 (v(goValue gfi := x), W1)))"

definition populateDefaultType ::
  "(string \<rightharpoonup> 'w Source) \<Rightarrow> 'f strconv \<Rightarrow> Gofiguritem \<Rightarrow> string list
    \<Rightarrow> 'f Store \<times> 'w World \<Rightarrow> error option \<times> 'f Store \<times> 'w World" where
  "populateDefaultType S lib gfi ord vW = populateDefaultType_loop S lib gfi ord None vW"

text \<open>
  \<^verbatim>\<open>gfi.goValue.Set(reflect.Append(gfi.goValue, x))\<close> for each string of \<^verbatim>\<open>val\<close>; a slice
  field holds a \<open>SliceV\<close>, the nil slice being \<open>SliceV []\<close>.
\<close>

definition sliceElems :: "'f Value \<Rightarrow> 'f Value list" where
  "sliceElems x = (case x of SliceV xs \<Rightarrow> xs | _ \<Rightarrow> [])"

fun appendElems :: "Kind \<Rightarrow> nat \<Rightarrow> string list \<Rightarrow> 'f Store \<Rightarrow> error option \<times> 'f Store" where
  "appendElems ek i [] v = (None, v)"
| "appendElems ek i (s # ss) v =
     (case sliceElem ek s of
        Inl err \<Rightarrow> (Some err, v)
      | Inr x \<Rightarrow> appendElems ek i ss (v(i := SliceV (sliceElems (v i) @ [x]))))"

definition populateSliceType_switch ::
  "Type \<Rightarrow> nat \<Rightarrow> string list \<Rightarrow> 'f Store \<Rightarrow> error option \<times> 'f Store" where
  "populateSliceType_switch ty i val v =
     (if Kind ty = Slice \<and> ElemKind ty \<in> set sliceElemKinds
      then appendElems (ElemKind ty) i val v
      else (None, v))"

text \<open>\<^verbatim>\<open>populateSliceType\<close>: \<^verbatim>\<open>prevVal\<close> is declared nil and never assigned.\<close>

fun populateSliceType_loop ::
  "(string \<rightharpoonup> 'w Source) \<Rightarrow> Gofiguritem \<Rightarrow> string list \<Rightarrow> string list option
    \<Rightarrow> 'f Store \<times> 'w World \<Rightarrow> error option \<times> 'f Store \<times> 'w World" where
  "populateSliceType_loop S gfi [] prevVal (v, W) = (None, v, W)"
| "populateSliceType_loop S gfi (source # rest) prevVal (v, W) =
     (case callGetArray S source (keyName gfi source) prevVal W of
        (Inl err, W1) \<Rightarrow> (Some err, v, W1)
      | (Inr val, W1) \<Rightarrow>
          (case populateSliceType_switch (Typ (goField gfi)) (goValue gfi) val v of
             (Some err, v1) \<Rightarrow> (Some err, v1, W1)
           | (None, v1) \<Rightarrow> populateSliceType_loop S gfi rest prevVal (v1, W1)))"

definition populateSliceType ::
  "(string \<rightharpoonup> 'w Source) \<Rightarrow> Gofiguritem \<Rightarrow> string list
    \<Rightarrow> 'f Store \<times> 'w World \<Rightarrow> error option \<times> 'f Store \<times> 'w World" where
  "populateSliceType S gfi ord vW = populateSliceType_loop S gfi ord None vW"

text \<open>The \<^verbatim>\<open>switch\<close> of \<^verbatim>\<open>populateStruct\<close> for one field.\<close>

definition populateStruct_switch ::
  "(string \<rightharpoonup> 'w Source) \<Rightarrow> 'f strconv \<Rightarrow> string list \<Rightarrow> Gofiguritem
    \<Rightarrow> 'f Store \<times> 'w World \<Rightarrow> error option \<times> 'f Store \<times> 'w World" where
  "populateStruct_switch S lib ord gfi vW =
     (case Kind (Typ (goField gfi)) of
        Invalid \<Rightarrow> (Some ErrUnsupportedFieldType, vW)
      | Uintptr \<Rightarrow> (Some ErrUnsupportedFieldType, vW)
      | Complex64 \<Rightarrow> (Some ErrUnsupportedFieldType, vW)
      | Complex128 \<Rightarrow> (Some ErrUnsupportedFieldType, vW)
      | Chan \<Rightarrow> (Some ErrUnsupportedFieldType, vW)
      | Func \<Rightarrow> (Some ErrUnsupportedFieldType, vW)
      | Ptr \<Rightarrow> (Some ErrUnsupportedFieldType, vW)
      | UnsafePointer \<Rightarrow> (Some ErrUnsupportedFieldType, vW)
      | Interface \<Rightarrow> (Some ErrUnsupportedFieldType, vW)
      | Map \<Rightarrow> (Some ErrUnsupportedFieldType, vW)
      | Slice \<Rightarrow> populateSliceType S gfi ord vW
      | Struct \<Rightarrow> (Some ErrUnsupportedFieldType, vW)
      | Array \<Rightarrow> (Some ErrUnsupportedFieldType, vW)
      | _ \<Rightarrow> populateDefaultType S lib gfi ord vW)"

fun populateStruct_loop ::
  "(string \<rightharpoonup> 'w Source) \<Rightarrow> 'f strconv \<Rightarrow> string list \<Rightarrow> Gofiguritem list
    \<Rightarrow> 'f Store \<times> 'w World \<Rightarrow> error option \<times> 'f Store \<times> 'w World" where
  "populateStruct_loop S lib ord [] vW = (None, vW)"
| "populateStruct_loop S lib ord (gfi # gfis) vW =
     (case populateStruct_switch S lib ord gfi vW of
        (Some err, vW1) \<Rightarrow> (Some err, vW1)
      | (None, vW1) \<Rightarrow> populateStruct_loop S lib ord gfis vW1)"

definition populateStruct ::
  "(string \<rightharpoonup> 'w Source) \<Rightarrow> 'f strconv \<Rightarrow> (string \<Rightarrow> nat) \<Rightarrow> Gofiguration
    \<Rightarrow> 'f Store \<times> 'w World \<Rightarrow> error option \<times> 'f Store \<times> 'w World" where
  "populateStruct S lib rank gfg vW =
     populateStruct_loop S lib (order gfg) (map snd (rangeMap rank (fieldsM gfg))) vW"

section \<open>Apply and Gofigure\<close>

text \<open>
  \<^verbatim>\<open>Apply\<close>: the three phases, then the deferred \<^verbatim>\<open>cleanupSources\<close>, which runs on every
  return. The two ranks are the orders of the two \<^verbatim>\<open>range gfg.fields\<close>.
\<close>

definition applyPhases ::
  "(string \<rightharpoonup> 'w Source) \<Rightarrow> 'f strconv \<Rightarrow> (string \<Rightarrow> nat) \<Rightarrow> (string \<Rightarrow> nat) \<Rightarrow> Gofiguration
    \<Rightarrow> 'f Store \<times> 'w World \<Rightarrow> error option \<times> 'f Store \<times> 'w World" where
  "applyPhases S lib rankR rankP gfg vW =
     (case initSources S gfg (snd vW) of
        (Some err, W1) \<Rightarrow> (Some err, fst vW, W1)
      | (None, W1) \<Rightarrow>
          (case registerFields S rankR gfg W1 of
             (Some err, W2) \<Rightarrow> (Some err, fst vW, W2)
           | (None, W2) \<Rightarrow> populateStruct S lib rankP gfg (fst vW, W2)))"

definition Apply ::
  "(string \<rightharpoonup> 'w Source) \<Rightarrow> 'f strconv \<Rightarrow> (string \<Rightarrow> nat) \<Rightarrow> (string \<Rightarrow> nat) \<Rightarrow> Gofiguration
    \<Rightarrow> 'f Store \<times> 'w World \<Rightarrow> error option \<times> 'f Store \<times> 'w World" where
  "Apply S lib rankR rankP gfg vW =
     (case applyPhases S lib rankR rankP gfg vW of
        (err, v1, W1) \<Rightarrow>
          (case cleanupSources S gfg W1 of
             (Some p, W2) \<Rightarrow> (Some p, v1, W2)
           | (None, W2) \<Rightarrow> (err, v1, W2)))"

definition Gofigure ::
  "(string \<rightharpoonup> 'w Source) \<Rightarrow> string list \<Rightarrow> 'f strconv \<Rightarrow> (string \<Rightarrow> nat) \<Rightarrow> (string \<Rightarrow> nat)
    \<Rightarrow> (string \<Rightarrow> nat) \<Rightarrow> StructField list \<Rightarrow> 'f Store \<times> 'w World
    \<Rightarrow> error option \<times> 'f Store \<times> 'w World" where
  "Gofigure S D lib rankT rankR rankP t vW =
     (case ParseStruct S D lib rankT t of
        Inl err \<Rightarrow> (Some err, vW)
      | Inr gfg \<Rightarrow> Apply S lib rankR rankP gfg vW)"

section \<open>Auxiliary definitions for the statements\<close>

text \<open>The log entries that are calls of \<^verbatim>\<open>Cleanup\<close>.\<close>

definition isCleanup :: "Event \<Rightarrow> bool" where
  "isCleanup e = (case e of EvCleanup n \<Rightarrow> True | _ \<Rightarrow> False)"

text \<open>A run from \<open>W\<close> to \<open>W'\<close> that adds calls to the log, none of them a \<^verbatim>\<open>Cleanup\<close>.\<close>

definition extends :: "'w World \<Rightarrow> 'w World \<Rightarrow> bool" where
  "extends W W' = (\<exists>pre. snd W' = snd W @ pre \<and> list_all (\<lambda>e. \<not> isCleanup e) pre)"

text \<open>
  The state of the sources after \<^verbatim>\<open>Cleanup\<close> has been called for the entries of an order, one
  call per entry, from left to right.
\<close>

fun runCleanups :: "(string \<rightharpoonup> 'w Source) \<Rightarrow> string list \<Rightarrow> 'w \<Rightarrow> 'w" where
  "runCleanups S [] w = w"
| "runCleanups S (n # ns) w = runCleanups S ns (case S n of Some src \<Rightarrow> Cleanup src w | None \<Rightarrow> w)"

text \<open>
  The registry in which the \<^verbatim>\<open>Cleanup\<close> of the source named \<open>n\<close> is replaced by \<open>c n\<close>: a run
  that gives the same result for every \<open>c\<close> has called no \<^verbatim>\<open>Cleanup\<close>.
\<close>

definition withCleanup :: "(string \<Rightarrow> 'w \<Rightarrow> 'w) \<Rightarrow> (string \<rightharpoonup> 'w Source) \<Rightarrow> (string \<rightharpoonup> 'w Source)" where
  "withCleanup c S = (\<lambda>n. case S n of None \<Rightarrow> None | Some src \<Rightarrow> Some (src\<lparr>Cleanup := c n\<rparr>))"


subsection \<open>Concrete instances\<close>

text \<open>
  An instance of the two library parameters for concrete inputs: on a quoted string without
  escapes \<^verbatim>\<open>Unquote\<close> returns what is between the quotes, and \<^verbatim>\<open>ParseFloat\<close> reads \<^verbatim>\<open>"0"\<close>
  as zero.
\<close>

definition plainLib :: "int strconv" where
  "plainLib = \<lparr>Unquote = (\<lambda>q. Inr (butlast (tl q))),
               ParseFloat = (\<lambda>s bitSize. if s = ''0'' then Inr 0 else Inl ErrSyntax)\<rparr>"

text \<open>
  A source that answers from two tables: a key that is absent yields the previous value;
  \<^verbatim>\<open>Init\<close>, \<^verbatim>\<open>Register\<close> and \<^verbatim>\<open>Cleanup\<close> do nothing.
\<close>

definition tableSource :: "(string \<times> string) list \<Rightarrow> (string \<times> string list) list \<Rightarrow> unit Source" where
  "tableSource tbl arrs =
     \<lparr>Init = (\<lambda>args w. (None, w)),
      Register = (\<lambda>kn d ks ty w. (None, w)),
      Get = (\<lambda>kn prev w.
         (Inr (case map_of tbl kn of
                 Some x \<Rightarrow> x
               | None \<Rightarrow> (case prev of Some p \<Rightarrow> p | None \<Rightarrow> [])), w)),
      GetArray = (\<lambda>kn prev w. (Inr (case map_of arrs kn of Some xs \<Rightarrow> xs | None \<Rightarrow> []), w)),
      Cleanup = (\<lambda>w. w)\<rparr>"

definition twoSources ::
  "(string \<times> string) list \<Rightarrow> (string \<times> string list) list
   \<Rightarrow> (string \<times> string) list \<Rightarrow> (string \<times> string list) list \<Rightarrow> string \<rightharpoonup> unit Source" where
  "twoSources t1 a1 t2 a2 = [''env'' \<mapsto> tableSource t1 a1, ''flag'' \<mapsto> tableSource t2 a2]"

definition fieldOf :: "string \<Rightarrow> Kind \<Rightarrow> Kind \<Rightarrow> string \<Rightarrow> StructField" where
  "fieldOf n k ek tg = \<lparr>Name = n, Typ = \<lparr>Kind = k, ElemKind = ek\<rparr>, Tag = tg\<rparr>"

text \<open>A record whose directive field names the unregistered source \<^verbatim>\<open>bogus\<close>.\<close>

definition bogusOrder :: "StructField list" where
  "bogusOrder = [fieldOf ''gofigure'' Interface Invalid ''order:\"flag,bogus\"'',
                 fieldOf ''Port'' IntK Invalid ''env:\"PORT\"'']"

text \<open>
  A source whose state is the list of the \<^verbatim>\<open>Cleanup\<close> calls made so far: \<^verbatim>\<open>Cleanup\<close> appends the
  source's name, \<^verbatim>\<open>Init\<close> fails unless \<open>ok\<close>, and \<^verbatim>\<open>Get\<close> returns the previous value.
\<close>

definition namedSource :: "string \<Rightarrow> bool \<Rightarrow> string list Source" where
  "namedSource n ok =
     \<lparr>Init = (\<lambda>args w. (if ok then None else Some (SourceError n), w)),
      Register = (\<lambda>kn d ks ty w. (None, w)),
      Get = (\<lambda>kn prev w. (Inr (case prev of Some p \<Rightarrow> p | None \<Rightarrow> []), w)),
      GetArray = (\<lambda>kn prev w. (Inr [], w)),
      Cleanup = (\<lambda>w. w @ [n])\<rparr>"

definition namedSources :: "bool \<Rightarrow> bool \<Rightarrow> string \<rightharpoonup> string list Source" where
  "namedSources okEnv okFlag = [''env'' \<mapsto> namedSource ''env'' okEnv, ''flag'' \<mapsto> namedSource ''flag'' okFlag]"

text \<open>A record with a directive field of tag \<open>tg\<close> and one string field.\<close>

definition orderedRecord :: "string \<Rightarrow> StructField list" where
  "orderedRecord tg = [fieldOf ''gofigure'' Interface Invalid tg, fieldOf ''Name'' String Invalid []]"

text \<open>A field descriptor as \<^verbatim>\<open>parseFields\<close> builds it, with the keys its tag gives.\<close>

definition gfiOf :: "string \<Rightarrow> (string \<times> string) list \<Rightarrow> Kind \<Rightarrow> Kind \<Rightarrow> nat \<Rightarrow> Gofiguritem" where
  "gfiOf n ks k ek i = \<lparr>keys = ks, field = n, goField = fieldOf n k ek [], goValue = i\<rparr>"

text \<open>The kinds for which \<^verbatim>\<open>populateStruct\<close> returns \<^verbatim>\<open>ErrUnsupportedFieldType\<close> itself.\<close>

definition unsupportedKinds :: "Kind list" where
  "unsupportedKinds = [Invalid, Uintptr, Complex64, Complex128, Chan, Func, Ptr, UnsafePointer,
                       Interface, Map, Struct, Array]"

text \<open>A record with one field of type \<^verbatim>\<open>[]float64\<close>.\<close>

definition floatRates :: "StructField list" where
  "floatRates = [fieldOf ''Rates'' Slice Float64 []]"

text \<open>
  What the loop of \<^verbatim>\<open>parseGofigureField\<close> does to the plan for a key other than \<^verbatim>\<open>order\<close>.
\<close>

definition storeParam :: "string \<Rightarrow> string \<Rightarrow> Gofiguration \<Rightarrow> Gofiguration" where
  "storeParam name val gfg =
     (case argRe_FindStringSubmatch name of
        Some (m1, m2) \<Rightarrow>
          gfg\<lparr>params := (params gfg)
                 (m1 \<mapsto> AList.update (ToLower m2) val
                           (case params gfg m1 of None \<Rightarrow> [] | Some m \<Rightarrow> m))\<rparr>
      | None \<Rightarrow> gfg)"

text \<open>\<^verbatim>\<open>params[p][q]\<close> is present and equals \<open>val\<close>.\<close>

definition hasParam :: "Gofiguration \<Rightarrow> string \<Rightarrow> string \<Rightarrow> string \<Rightarrow> bool" where
  "hasParam gfg p q val = (case params gfg p of None \<Rightarrow> False | Some m \<Rightarrow> map_of m q = Some val)"

text \<open>
  The pair under which the value of a directive key is stored: none for \<^verbatim>\<open>order\<close> and for a key
  in which \<^verbatim>\<open>argRe\<close> finds no match.
\<close>

definition paramKey :: "string \<Rightarrow> (string \<times> string) option" where
  "paramKey name =
     (if name = ''order'' then None
      else (case argRe_FindStringSubmatch name of
              None \<Rightarrow> None
            | Some (m1, m2) \<Rightarrow> Some (m1, ToLower m2)))"

text \<open>
  A string that begins with a match of \<^verbatim>\<open>([a-z]+)([A-Z][a-z]+)\<close>: one or more lower-case
  letters, one upper-case letter, one or more lower-case letters, then anything.
\<close>

definition argReAt :: "string \<Rightarrow> bool" where
  "argReAt s = (\<exists>p u ls post. s = p @ u # ls @ post \<and> p \<noteq> [] \<and> list_all isLower p
                  \<and> isUpper u \<and> ls \<noteq> [] \<and> list_all isLower ls)"

text \<open>
  Two directive fields: in the first the keys \<^verbatim>\<open>envPrefix\<close> and \<^verbatim>\<open>x-envPrefix2\<close> both contain
  \<^verbatim>\<open>envPrefix\<close>; the second has the key \<^verbatim>\<open>envPrefix2\<close> alone.
\<close>

definition collidingDirective :: "StructField list" where
  "collidingDirective =
     [fieldOf ''gofigure'' Interface Invalid ''envPrefix:\"A\" x-envPrefix2:\"B\" debug:\"1\"'']"

definition prefix2Directive :: "StructField list" where
  "prefix2Directive = [fieldOf ''gofigure'' Interface Invalid ''envPrefix2:\"APP\"'']"

text \<open>
  The text between the quotes of a value as the scan of \<^verbatim>\<open>getStructTags\<close> reads it: a backslash
  takes the next character with it. A closed body has no quote of its own and no backslash
  left alone at its end; an open body is a text in which the scan finds no closing quote.
\<close>

fun closedBody :: "string \<Rightarrow> bool" where
  "closedBody [] = True"
| "closedBody (c # cs) =
     (if c = CHR 0x22 then False
      else if c = CHR 0x5C then (case cs of [] \<Rightarrow> False | d # ds \<Rightarrow> closedBody ds)
      else closedBody cs)"

fun openBody :: "string \<Rightarrow> bool" where
  "openBody [] = True"
| "openBody (c # cs) =
     (if c = CHR 0x22 then False
      else if c = CHR 0x5C then (case cs of [] \<Rightarrow> True | d # ds \<Rightarrow> openBody ds)
      else openBody cs)"

text \<open>
  A pair as it is written in a tag, after \<open>n\<close> spaces, and the pairs that are well formed: the
  name has no space, colon or quote, the body is closed.
\<close>

definition pairText :: "nat \<times> string \<times> string \<Rightarrow> string" where
  "pairText t =
     (case t of (n, name, body) \<Rightarrow>
        replicate n (CHR '' '') @ name @ [CHR '':'', CHR 0x22] @ body @ [CHR 0x22])"

definition wfPair :: "nat \<times> string \<times> string \<Rightarrow> bool" where
  "wfPair t = (case t of (n, name, body) \<Rightarrow> list_all isNameChar name \<and> closedBody body)"

text \<open>
  The texts at which parsing stops: only spaces are left, or what follows the spaces is not a
  name followed by a colon and a quote, or the quoted value has no closing quote.
\<close>

definition stops :: "string \<Rightarrow> bool" where
  "stops rest =
     (let r = dropWhile (\<lambda>c. c = CHR '' '') rest
      in r = [] \<or>
         (case dropWhile isNameChar r of
            c1 # c2 # body \<Rightarrow> c1 \<noteq> CHR '':'' \<or> c2 \<noteq> CHR 0x22 \<or> openBody body
          | _ \<Rightarrow> True))"

text \<open>What one well-formed pair adds to the map.\<close>

definition storePair :: "'f strconv \<Rightarrow> (string \<times> string) list \<Rightarrow> nat \<times> string \<times> string
    \<Rightarrow> (string \<times> string) list" where
  "storePair lib m t =
     (case t of (n, name, body) \<Rightarrow>
        AList.update name
          (case Unquote lib (CHR 0x22 # body @ [CHR 0x22]) of Inr v \<Rightarrow> v | Inl e \<Rightarrow> []) m)"

text \<open>Two tags with two pairs and a malformed third: no colon, and no closing quote.\<close>

definition brokenTag :: string where
  "brokenTag = ''env:\"PORT\"  flag:\"port\" help \"listen port\"''"

definition openTag :: string where
  "openTag = ''env:\"PORT\"  flag:\"port\" help:\"listen port''"

section \<open>The log of a run\<close>

lemma extends_refl: "extends W W"
  by (simp add: extends_def)

lemma extends_trans: "extends W W1 \<Longrightarrow> extends W1 W2 \<Longrightarrow> extends W W2"
  by (auto simp: extends_def)

lemma extends_callInit: "callInit S n args W = (r, W') \<Longrightarrow> extends W W'"
  by (auto simp: callInit_def extends_def isCleanup_def split: option.splits prod.splits)

lemma extends_callRegister: "callRegister S n kn ks ty W = (r, W') \<Longrightarrow> extends W W'"
  by (auto simp: callRegister_def extends_def isCleanup_def split: option.splits prod.splits)

lemma extends_callGet: "callGet S n kn p W = (r, W') \<Longrightarrow> extends W W'"
  by (auto simp: callGet_def extends_def isCleanup_def split: option.splits prod.splits)

lemma extends_callGetArray: "callGetArray S n kn p W = (r, W') \<Longrightarrow> extends W W'"
  by (auto simp: callGetArray_def extends_def isCleanup_def split: option.splits prod.splits)

lemma extends_initSources_loop: "initSources_loop S gfg os W = (r, W') \<Longrightarrow> extends W W'"
proof (induction os arbitrary: W)
  case Nil
  then show ?case by (simp add: extends_refl)
next
  case (Cons n os)
  obtain r1 W1 where c: "callInit S n (params gfg n) W = (r1, W1)"
    by (cases "callInit S n (params gfg n) W")
  show ?case
  proof (cases r1)
    case None
    with Cons.prems c have "initSources_loop S gfg os W1 = (r, W')"
      by simp
    from Cons.IH [OF this] extends_callInit [OF c] show ?thesis
      by (rule extends_trans [rotated])
  next
    case (Some e)
    with Cons.prems c show ?thesis
      by (auto dest: extends_callInit)
  qed
qed

lemma extends_registerFields_order:
  "registerFields_order S gfi os W = (r, W') \<Longrightarrow> extends W W'"
proof (induction os arbitrary: W)
  case Nil
  then show ?case by (simp add: extends_refl)
next
  case (Cons n os)
  obtain r1 W1 where c: "callRegister S n (keyName gfi n) (keys gfi) (Typ (goField gfi)) W = (r1, W1)"
    by (cases "callRegister S n (keyName gfi n) (keys gfi) (Typ (goField gfi)) W")
  show ?case
  proof (cases r1)
    case None
    with Cons.prems c have "registerFields_order S gfi os W1 = (r, W')"
      by simp
    from Cons.IH [OF this] extends_callRegister [OF c] show ?thesis
      by (rule extends_trans [rotated])
  next
    case (Some e)
    with Cons.prems c show ?thesis
      by (auto dest: extends_callRegister)
  qed
qed

lemma extends_registerFields_loop:
  "registerFields_loop S ord gfis W = (r, W') \<Longrightarrow> extends W W'"
proof (induction gfis arbitrary: W)
  case Nil
  then show ?case by (simp add: extends_refl)
next
  case (Cons gfi gfis)
  obtain r1 W1 where c: "registerFields_order S gfi ord W = (r1, W1)"
    by (cases "registerFields_order S gfi ord W")
  show ?case
  proof (cases r1)
    case None
    with Cons.prems c have "registerFields_loop S ord gfis W1 = (r, W')"
      by simp
    from Cons.IH [OF this] extends_registerFields_order [OF c] show ?thesis
      by (rule extends_trans [rotated])
  next
    case (Some e)
    with Cons.prems c show ?thesis
      by (auto dest: extends_registerFields_order)
  qed
qed

lemma extends_populateDefaultType_loop:
  "populateDefaultType_loop S lib gfi os p (v, W) = (r, v', W') \<Longrightarrow> extends W W'"
proof (induction os arbitrary: p v W)
  case Nil
  then show ?case by (simp add: extends_refl)
next
  case (Cons n os)
  obtain r1 W1 where c: "callGet S n (keyName gfi n) p W = (r1, W1)"
    by (cases "callGet S n (keyName gfi n) p W")
  have e1: "extends W W1" using c by (rule extends_callGet)
  show ?case
  proof (cases r1)
    case (Inl e)
    with Cons.prems c e1 show ?thesis by auto
  next
    case (Inr val)
    show ?thesis
    proof (cases "populateDefaultType_switch lib (Kind (Typ (goField gfi))) val")
      case (Inl e)
      with Cons.prems c e1 Inr show ?thesis by auto
    next
      case (Inr x)
      with Cons.prems c \<open>r1 = Inr val\<close>
      have "populateDefaultType_loop S lib gfi os
              (Some (valAfterSwitch (Kind (Typ (goField gfi))) val))
              (v(goValue gfi := x), W1) = (r, v', W')"
        by simp
      from Cons.IH [OF this] e1 show ?thesis by (rule extends_trans [rotated])
    qed
  qed
qed

lemma extends_populateSliceType_loop:
  "populateSliceType_loop S gfi os p (v, W) = (r, v', W') \<Longrightarrow> extends W W'"
proof (induction os arbitrary: v W)
  case Nil
  then show ?case by (simp add: extends_refl)
next
  case (Cons n os)
  obtain r1 W1 where c: "callGetArray S n (keyName gfi n) p W = (r1, W1)"
    by (cases "callGetArray S n (keyName gfi n) p W")
  have e1: "extends W W1" using c by (rule extends_callGetArray)
  show ?case
  proof (cases r1)
    case (Inl e)
    with Cons.prems c e1 show ?thesis by auto
  next
    case (Inr val)
    obtain r2 v2 where s: "populateSliceType_switch (Typ (goField gfi)) (goValue gfi) val v = (r2, v2)"
      by (cases "populateSliceType_switch (Typ (goField gfi)) (goValue gfi) val v")
    show ?thesis
    proof (cases r2)
      case (Some e)
      with Cons.prems c e1 Inr s show ?thesis by auto
    next
      case None
      with Cons.prems c Inr s
      have "populateSliceType_loop S gfi os p (v2, W1) = (r, v', W')"
        by simp
      from Cons.IH [OF this] e1 show ?thesis by (rule extends_trans [rotated])
    qed
  qed
qed

lemma extends_populateStruct_switch:
  "populateStruct_switch S lib ord gfi (v, W) = (r, v', W') \<Longrightarrow> extends W W'"
  by (cases "Kind (Typ (goField gfi))")
     (auto simp: populateStruct_switch_def populateSliceType_def populateDefaultType_def
        extends_refl
        dest: extends_populateDefaultType_loop extends_populateSliceType_loop)

lemma extends_populateStruct_loop:
  "populateStruct_loop S lib ord gfis (v, W) = (r, v', W') \<Longrightarrow> extends W W'"
proof (induction gfis arbitrary: v W)
  case Nil
  then show ?case by (simp add: extends_refl)
next
  case (Cons gfi gfis)
  obtain r1 v1 W1 where c: "populateStruct_switch S lib ord gfi (v, W) = (r1, v1, W1)"
    by (cases "populateStruct_switch S lib ord gfi (v, W)")
  have e1: "extends W W1" using c by (rule extends_populateStruct_switch)
  show ?case
  proof (cases r1)
    case None
    with Cons.prems c have "populateStruct_loop S lib ord gfis (v1, W1) = (r, v', W')"
      by simp
    from Cons.IH [OF this] e1 show ?thesis by (rule extends_trans [rotated])
  next
    case (Some e)
    with Cons.prems c e1 show ?thesis by auto
  qed
qed

lemma extends_applyPhases:
  assumes "applyPhases S lib rankR rankP gfg (v, W) = (r, v', W')"
  shows "extends W W'"
proof -
  obtain r1 W1 where i: "initSources S gfg W = (r1, W1)"
    by (cases "initSources S gfg W")
  have e1: "extends W W1"
    using i by (auto simp: initSources_def dest: extends_initSources_loop)
  show ?thesis
  proof (cases r1)
    case (Some e)
    with assms i e1 show ?thesis by (simp add: applyPhases_def)
  next
    case None
    obtain r2 W2 where g: "registerFields S rankR gfg W1 = (r2, W2)"
      by (cases "registerFields S rankR gfg W1")
    have e2: "extends W1 W2"
      using g by (auto simp: registerFields_def dest: extends_registerFields_loop)
    show ?thesis
    proof (cases r2)
      case (Some e)
      with assms i None g e1 e2 show ?thesis
        by (auto simp: applyPhases_def intro: extends_trans)
    next
      case None
      with assms i \<open>r1 = None\<close> g
      have "populateStruct S lib rankP gfg (v, W2) = (r, v', W')"
        by (simp add: applyPhases_def)
      then have "extends W2 W'"
        by (auto simp: populateStruct_def dest: extends_populateStruct_loop)
      with e1 e2 show ?thesis by (blast intro: extends_trans)
    qed
  qed
qed

section \<open>Scalar population\<close>

lemmas run_defs =
  populateDefaultType_def populateSliceType_def populateSliceType_switch_def sliceElemKinds_def
  callGet_def callGetArray_def callInit_def callRegister_def callCleanup_def
  twoSources_def tableSource_def gfiOf_def fieldOf_def keyName_def plainLib_def
  populateDefaultType_switch_def valAfterSwitch_def sliceElem_def sliceElems_def
  setInt_def setUint_def setFloat_def numVal_def
  ParseBool_def ParseInt_def ParseUint_def isDigit_def digitVal_def Let_def

lemmas plan_defs =
  Gofigure_def ParseStruct_def parseGofigureField_def FieldByName_def parseFields_def
  Apply_def applyPhases_def initSources_def registerFields_def populateStruct_def
  cleanupSources_def populateStruct_switch_def rangeMap_def

text \<open>
  C1. The claim has the second source receive what the first source's \<^verbatim>\<open>Get\<close> returned. For a
  Bool field that is not what \<^verbatim>\<open>populateDefaultType\<close> passes when the first source returns the
  empty string: \<^verbatim>\<open>prevVal = &val\<close> aliases \<^verbatim>\<open>val\<close>, and the Bool branch then assigns
  \<^verbatim>\<open>val = "false"\<close>, so the second source is called with \<^verbatim>\<open>"false"\<close> as the previous value. The
  numeric branches parse \<^verbatim>\<open>numVal(val)\<close> and leave \<^verbatim>\<open>val\<close> alone: for an integer field the same
  run passes the empty string on. Below, \<^verbatim>\<open>env\<close> has no value for \<^verbatim>\<open>Debug\<close> and returns the empty
  string; the log shows the previous value \<^verbatim>\<open>flag\<close> is called with, first for a Bool field, then
  for an integer field. In both runs the field ends up with the coercion of what \<^verbatim>\<open>flag\<close>
  returned.
\<close>

theorem bool_empty_previous:
  "Get (tableSource [] []) ''Debug'' None () = (Inr [], ())
   \<and> populateDefaultType (twoSources [] [] [(''Debug'', ''true'')] []) plainLib
         (gfiOf ''Debug'' [] Bool Invalid 0) [''env'', ''flag''] (\<lambda>i. BoolV False, ((), []))
       = (None, (\<lambda>i. BoolV False)(0 := BoolV True),
          ((), [EvGet ''env'' ''Debug'' None, EvGet ''flag'' ''Debug'' (Some ''false'')]))
   \<and> populateDefaultType (twoSources [] [] [(''Debug'', ''1'')] []) plainLib
         (gfiOf ''Debug'' [] IntK Invalid 0) [''env'', ''flag''] (\<lambda>i. IntV 7, ((), []))
       = (None, (\<lambda>i. IntV 7)(0 := IntV 1),
          ((), [EvGet ''env'' ''Debug'' None, EvGet ''flag'' ''Debug'' (Some [])]))"
  by (simp add: run_defs)

text \<open>One round of the loop of \<^verbatim>\<open>populateDefaultType\<close>, and the runs that succeed or abort.\<close>

lemma loop_Cons_None:
  assumes "populateDefaultType_loop S lib gfi (a # os) p (v, W) = (None, v', W')"
  shows "\<exists>sa va w1 xa. S a = Some sa \<and> Get sa (keyName gfi a) p (fst W) = (Inr va, w1)
           \<and> populateDefaultType_switch lib (Kind (Typ (goField gfi))) va = Inr xa
           \<and> populateDefaultType_loop S lib gfi os (Some (valAfterSwitch (Kind (Typ (goField gfi))) va))
               (v(goValue gfi := xa), (w1, snd W @ [EvGet a (keyName gfi a) p])) = (None, v', W')"
  using assms by (auto simp: callGet_def split: option.splits prod.splits sum.splits)

lemma loop_Cons_ok:
  assumes "callGet S a (keyName gfi a) p W = (Inr va, W1)"
    and "populateDefaultType_switch lib (Kind (Typ (goField gfi))) va = Inr xa"
  shows "populateDefaultType_loop S lib gfi (a # os) p (v, W)
         = populateDefaultType_loop S lib gfi os (Some (valAfterSwitch (Kind (Typ (goField gfi))) va))
             (v(goValue gfi := xa), W1)"
  using assms by simp

lemma loop_Cons_Some:
  assumes "populateDefaultType_loop S lib gfi (a # os) p (v, W) = (Some e, v', W')"
  shows "(v' = v \<and> (callGet S a (keyName gfi a) p W = (Inl e, W')
                    \<or> (\<exists>val. callGet S a (keyName gfi a) p W = (Inr val, W')
                          \<and> populateDefaultType_switch lib (Kind (Typ (goField gfi))) val = Inl e)))
       \<or> (\<exists>va W1 xa. callGet S a (keyName gfi a) p W = (Inr va, W1)
             \<and> populateDefaultType_switch lib (Kind (Typ (goField gfi))) va = Inr xa
             \<and> populateDefaultType_loop S lib gfi os (Some (valAfterSwitch (Kind (Typ (goField gfi))) va))
                 (v(goValue gfi := xa), W1) = (Some e, v', W'))"
  using assms by (auto split: prod.splits sum.splits)

lemma loop_success:
  assumes "populateDefaultType_loop S lib gfi os p (v, W) = (None, v', W')"
  shows "length (snd W') = length (snd W) + length os
       \<and> (\<forall>i. i \<noteq> goValue gfi \<longrightarrow> v' i = v i)
       \<and> (os = [] \<longrightarrow> v' = v \<and> W' = W)
       \<and> (os \<noteq> [] \<longrightarrow>
            (\<exists>sz pz wz val. S (last os) = Some sz
               \<and> Get sz (keyName gfi (last os)) pz wz = (Inr val, fst W')
               \<and> last (snd W') = EvGet (last os) (keyName gfi (last os)) pz
               \<and> populateDefaultType_switch lib (Kind (Typ (goField gfi))) val = Inr (v' (goValue gfi))))"
  using assms
proof (induction os arbitrary: p v W)
  case Nil
  then show ?case by simp
next
  case (Cons a os)
  let ?k = "Kind (Typ (goField gfi))"
  from loop_Cons_None [OF Cons.prems] obtain sa va w1 xa where
    sa: "S a = Some sa" and ga: "Get sa (keyName gfi a) p (fst W) = (Inr va, w1)"
    and sw: "populateDefaultType_switch lib ?k va = Inr xa"
    and rest: "populateDefaultType_loop S lib gfi os (Some (valAfterSwitch ?k va))
               (v(goValue gfi := xa), (w1, snd W @ [EvGet a (keyName gfi a) p])) = (None, v', W')"
    by blast
  note ih = Cons.IH [OF rest]
  from ih have len: "length (snd W') = length (snd W) + length (a # os)" by simp
  from ih have oth: "\<forall>i. i \<noteq> goValue gfi \<longrightarrow> v' i = v i" by simp
  have lst: "\<exists>sz pz wz val. S (last (a # os)) = Some sz
               \<and> Get sz (keyName gfi (last (a # os))) pz wz = (Inr val, fst W')
               \<and> last (snd W') = EvGet (last (a # os)) (keyName gfi (last (a # os))) pz
               \<and> populateDefaultType_switch lib ?k val = Inr (v' (goValue gfi))"
  proof (cases "os = []")
    case True
    with ih have e: "v' = v(goValue gfi := xa)" "W' = (w1, snd W @ [EvGet a (keyName gfi a) p])"
      by (simp_all add: fun_upd_def)
    have c: "S a = Some sa \<and> Get sa (keyName gfi a) p (fst W) = (Inr va, fst W')
          \<and> last (snd W') = EvGet a (keyName gfi a) p
          \<and> populateDefaultType_switch lib ?k va = Inr (v' (goValue gfi))"
      using sa ga sw unfolding e by simp
    have l: "last (a # os) = a" using True by simp
    from c show ?thesis unfolding l by (intro exI)
  next
    case False
    with ih have "\<exists>sz pz wz val. S (last os) = Some sz
               \<and> Get sz (keyName gfi (last os)) pz wz = (Inr val, fst W')
               \<and> last (snd W') = EvGet (last os) (keyName gfi (last os)) pz
               \<and> populateDefaultType_switch lib ?k val = Inr (v' (goValue gfi))"
      by blast
    moreover have "last (a # os) = last os" using False by simp
    ultimately show ?thesis by (simp only:)
  qed
  from len oth lst show ?case by simp
qed

lemma loop_abort_in_round:
  assumes "populateDefaultType_loop S lib gfi pre p (v, W) = (None, v1, W1)"
    and z: "S z = Some sz"
    and g: "\<forall>p' w. fst (Get sz (keyName gfi z) p' w) = Inr val"
    and sw: "populateDefaultType_switch lib (Kind (Typ (goField gfi))) val = Inl e"
  shows "\<exists>p' w2. Get sz (keyName gfi z) p' (fst W1) = (Inr val, w2)
           \<and> populateDefaultType_loop S lib gfi (pre @ z # post) p (v, W)
             = (Some e, v1, (w2, snd W1 @ [EvGet z (keyName gfi z) p']))"
  using assms(1)
proof (induction pre arbitrary: p v W)
  case Nil
  then have e: "v1 = v" "W1 = W" by simp_all
  obtain r w2 where gz: "Get sz (keyName gfi z) p (fst W) = (r, w2)"
    by (cases "Get sz (keyName gfi z) p (fst W)")
  from g have "fst (Get sz (keyName gfi z) p (fst W)) = Inr val" by blast
  with gz have r: "r = Inr val" by simp
  have "populateDefaultType_loop S lib gfi ([] @ z # post) p (v, W)
             = (Some e, v, (w2, snd W @ [EvGet z (keyName gfi z) p]))"
    using z gz sw unfolding r by (simp add: callGet_def)
  with gz show ?case unfolding e r by blast
next
  case (Cons a pre)
  let ?k = "Kind (Typ (goField gfi))"
  from loop_Cons_None [OF Cons.prems] obtain sa va w1 xa where
    sa: "S a = Some sa" and ga: "Get sa (keyName gfi a) p (fst W) = (Inr va, w1)"
    and swa: "populateDefaultType_switch lib ?k va = Inr xa"
    and rest: "populateDefaultType_loop S lib gfi pre (Some (valAfterSwitch ?k va))
               (v(goValue gfi := xa), (w1, snd W @ [EvGet a (keyName gfi a) p])) = (None, v1, W1)"
    by blast
  have cg: "callGet S a (keyName gfi a) p W = (Inr va, (w1, snd W @ [EvGet a (keyName gfi a) p]))"
    using sa ga by (simp add: callGet_def)
  have "populateDefaultType_loop S lib gfi ((a # pre) @ z # post) p (v, W)
        = populateDefaultType_loop S lib gfi (pre @ z # post) (Some (valAfterSwitch ?k va))
               (v(goValue gfi := xa), (w1, snd W @ [EvGet a (keyName gfi a) p]))"
    unfolding append_Cons by (rule loop_Cons_ok [OF cg swa])
  with Cons.IH [OF rest] show ?case by (simp only:)
qed

lemma loop_abort:
  assumes "populateDefaultType_loop S lib gfi os p (v, W) = (Some e, v', W')"
  shows "\<exists>pre z post p' W1. os = pre @ z # post
           \<and> populateDefaultType_loop S lib gfi pre p (v, W) = (None, v', W1)
           \<and> (callGet S z (keyName gfi z) p' W1 = (Inl e, W')
              \<or> (\<exists>val. callGet S z (keyName gfi z) p' W1 = (Inr val, W')
                    \<and> populateDefaultType_switch lib (Kind (Typ (goField gfi))) val = Inl e))"
  using assms
proof (induction os arbitrary: p v W)
  case Nil
  then show ?case by simp
next
  case (Cons a os)
  let ?k = "Kind (Typ (goField gfi))"
  from loop_Cons_Some [OF Cons.prems] show ?case
  proof
    assume h: "v' = v \<and> (callGet S a (keyName gfi a) p W = (Inl e, W')
                    \<or> (\<exists>val. callGet S a (keyName gfi a) p W = (Inr val, W')
                          \<and> populateDefaultType_switch lib ?k val = Inl e))"
    then have "a # os = [] @ a # os
           \<and> populateDefaultType_loop S lib gfi [] p (v, W) = (None, v', W)
           \<and> (callGet S a (keyName gfi a) p W = (Inl e, W')
              \<or> (\<exists>val. callGet S a (keyName gfi a) p W = (Inr val, W')
                    \<and> populateDefaultType_switch lib ?k val = Inl e))"
      by simp
    then show ?thesis by (intro exI)
  next
    assume "\<exists>va W1 xa. callGet S a (keyName gfi a) p W = (Inr va, W1)
             \<and> populateDefaultType_switch lib ?k va = Inr xa
             \<and> populateDefaultType_loop S lib gfi os (Some (valAfterSwitch ?k va))
                 (v(goValue gfi := xa), W1) = (Some e, v', W')"
    then obtain va Wa xa where cg: "callGet S a (keyName gfi a) p W = (Inr va, Wa)"
      and swa: "populateDefaultType_switch lib ?k va = Inr xa"
      and rest: "populateDefaultType_loop S lib gfi os (Some (valAfterSwitch ?k va))
                 (v(goValue gfi := xa), Wa) = (Some e, v', W')"
      by blast
    from Cons.IH [OF rest] obtain pre z post p' W1 where
      os: "os = pre @ z # post"
      and pr: "populateDefaultType_loop S lib gfi pre (Some (valAfterSwitch ?k va))
                 (v(goValue gfi := xa), Wa) = (None, v', W1)"
      and fl: "callGet S z (keyName gfi z) p' W1 = (Inl e, W')
              \<or> (\<exists>val. callGet S z (keyName gfi z) p' W1 = (Inr val, W')
                    \<and> populateDefaultType_switch lib ?k val = Inl e)"
      by blast
    have "populateDefaultType_loop S lib gfi (a # pre) p (v, W) = (None, v', W1)"
      unfolding loop_Cons_ok [OF cg swa] by (rule pr)
    with os fl have "a # os = (a # pre) @ z # post
           \<and> populateDefaultType_loop S lib gfi (a # pre) p (v, W) = (None, v', W1)
           \<and> (callGet S z (keyName gfi z) p' W1 = (Inl e, W')
              \<or> (\<exists>val. callGet S z (keyName gfi z) p' W1 = (Inr val, W')
                    \<and> populateDefaultType_switch lib ?k val = Inl e))"
      by simp
    then show ?thesis by (intro exI)
  qed
qed

text \<open>
  C2. As amended: in scalar population the value of every source is coerced and the field is set
  in every round, not only for the last source. (1) A run over an order that succeeds has called
  \<^verbatim>\<open>Get\<close> once per entry of the order, has changed no other field, and leaves in the field the
  coercion of the value the last source's \<^verbatim>\<open>Get\<close> returned. (2) A value that fails coercion
  aborts the run in its own round, whatever follows it in the order: if the rounds for \<open>pre\<close>
  succeed and the next source \<open>z\<close> returns a value that cannot be coerced, the run over
  \<open>pre @ z # post\<close> returns the coercion error, no source of \<open>post\<close> is consulted, and the field
  holds what the rounds for \<open>pre\<close> left there, which by (1) is the coercion of the value of the
  last source of \<open>pre\<close>. (3) Every run that returns an error has this form: the rounds of a prefix
  of the order succeeded and left the record as returned, and the next source's \<^verbatim>\<open>Get\<close> failed or
  returned a value that failed coercion.
\<close>

theorem scalar_rounds:
  "(populateDefaultType_loop S lib gfi os p (v, W) = (None, v', W')
      \<longrightarrow> length (snd W') = length (snd W) + length os
          \<and> (\<forall>i. i \<noteq> goValue gfi \<longrightarrow> v' i = v i)
          \<and> (os = [] \<longrightarrow> v' = v \<and> W' = W)
          \<and> (os \<noteq> [] \<longrightarrow>
               (\<exists>sz pz wz val. S (last os) = Some sz
                  \<and> Get sz (keyName gfi (last os)) pz wz = (Inr val, fst W')
                  \<and> last (snd W') = EvGet (last os) (keyName gfi (last os)) pz
                  \<and> populateDefaultType_switch lib (Kind (Typ (goField gfi))) val
                    = Inr (v' (goValue gfi)))))
   \<and> (populateDefaultType_loop S lib gfi pre p (v, W) = (None, v1, W1)
        \<and> S z = Some sz
        \<and> (\<forall>p' w. fst (Get sz (keyName gfi z) p' w) = Inr val)
        \<and> populateDefaultType_switch lib (Kind (Typ (goField gfi))) val = Inl e
      \<longrightarrow> (\<exists>p' w2. Get sz (keyName gfi z) p' (fst W1) = (Inr val, w2)
             \<and> populateDefaultType_loop S lib gfi (pre @ z # post) p (v, W)
               = (Some e, v1, (w2, snd W1 @ [EvGet z (keyName gfi z) p']))))
   \<and> (populateDefaultType_loop S lib gfi os p (v, W) = (Some e', v2, W2)
      \<longrightarrow> (\<exists>pre z post p' W1. os = pre @ z # post
             \<and> populateDefaultType_loop S lib gfi pre p (v, W) = (None, v2, W1)
             \<and> (callGet S z (keyName gfi z) p' W1 = (Inl e', W2)
                \<or> (\<exists>val. callGet S z (keyName gfi z) p' W1 = (Inr val, W2)
                      \<and> populateDefaultType_switch lib (Kind (Typ (goField gfi))) val = Inl e'))))"
proof -
  have 1: "populateDefaultType_loop S lib gfi os p (v, W) = (None, v', W')
      \<longrightarrow> length (snd W') = length (snd W) + length os
          \<and> (\<forall>i. i \<noteq> goValue gfi \<longrightarrow> v' i = v i)
          \<and> (os = [] \<longrightarrow> v' = v \<and> W' = W)
          \<and> (os \<noteq> [] \<longrightarrow>
               (\<exists>sz pz wz val. S (last os) = Some sz
                  \<and> Get sz (keyName gfi (last os)) pz wz = (Inr val, fst W')
                  \<and> last (snd W') = EvGet (last os) (keyName gfi (last os)) pz
                  \<and> populateDefaultType_switch lib (Kind (Typ (goField gfi))) val
                    = Inr (v' (goValue gfi))))"
    by (rule impI) (rule loop_success)
  have 2: "populateDefaultType_loop S lib gfi pre p (v, W) = (None, v1, W1)
        \<and> S z = Some sz
        \<and> (\<forall>p' w. fst (Get sz (keyName gfi z) p' w) = Inr val)
        \<and> populateDefaultType_switch lib (Kind (Typ (goField gfi))) val = Inl e
      \<longrightarrow> (\<exists>p' w2. Get sz (keyName gfi z) p' (fst W1) = (Inr val, w2)
             \<and> populateDefaultType_loop S lib gfi (pre @ z # post) p (v, W)
               = (Some e, v1, (w2, snd W1 @ [EvGet z (keyName gfi z) p'])))"
  proof (rule impI, elim conjE)
    assume "populateDefaultType_loop S lib gfi pre p (v, W) = (None, v1, W1)"
      "S z = Some sz" "\<forall>p' w. fst (Get sz (keyName gfi z) p' w) = Inr val"
      "populateDefaultType_switch lib (Kind (Typ (goField gfi))) val = Inl e"
    then show "\<exists>p' w2. Get sz (keyName gfi z) p' (fst W1) = (Inr val, w2)
             \<and> populateDefaultType_loop S lib gfi (pre @ z # post) p (v, W)
               = (Some e, v1, (w2, snd W1 @ [EvGet z (keyName gfi z) p']))"
      by (rule loop_abort_in_round)
  qed
  have 3: "populateDefaultType_loop S lib gfi os p (v, W) = (Some e', v2, W2)
      \<longrightarrow> (\<exists>pre z post p' W1. os = pre @ z # post
             \<and> populateDefaultType_loop S lib gfi pre p (v, W) = (None, v2, W1)
             \<and> (callGet S z (keyName gfi z) p' W1 = (Inl e', W2)
                \<or> (\<exists>val. callGet S z (keyName gfi z) p' W1 = (Inr val, W2)
                      \<and> populateDefaultType_switch lib (Kind (Typ (goField gfi))) val = Inl e')))"
    by (rule impI) (rule loop_abort)
  from 1 2 3 show ?thesis by (intro conjI)
qed

theorem scalar_rounds_witness:
  "(\<exists>p' w2. populateDefaultType_loop (twoSources [(''N'', ''5'')] [] [(''N'', ''x'')] []) plainLib
              (gfiOf ''N'' [] IntK Invalid 0) ([''env''] @ ''flag'' # []) None (\<lambda>i. IntV 3, ((), []))
            = (Some ErrSyntax, (\<lambda>i. IntV 3)(0 := IntV 5),
               (w2, [EvGet ''env'' ''N'' None] @ [EvGet ''flag'' ''N'' p'])))
   \<and> (\<exists>sz val. twoSources [(''N'', ''4'')] [] [(''N'', ''5'')] [] ''flag'' = Some sz
         \<and> Get sz ''N'' (Some ''4'') () = (Inr val, ())
         \<and> populateDefaultType_switch plainLib IntK val = Inr (IntV 5))
   \<and> (\<exists>pre z post p' W1. [''env'', ''flag''] = pre @ z # post
         \<and> populateDefaultType_loop (twoSources [(''N'', ''300x'')] [] [(''N'', ''5'')] []) plainLib
              (gfiOf ''N'' [] Int8 Invalid 0) pre None (\<lambda>i. IntV 3, ((), []))
            = (None, \<lambda>i. IntV 3, W1)
         \<and> (callGet (twoSources [(''N'', ''300x'')] [] [(''N'', ''5'')] []) z ''N'' p' W1
               = (Inl ErrRange, ((), [EvGet ''env'' ''N'' None]))
             \<or> (\<exists>val. callGet (twoSources [(''N'', ''300x'')] [] [(''N'', ''5'')] []) z ''N'' p' W1
                         = (Inr val, ((), [EvGet ''env'' ''N'' None]))
                   \<and> populateDefaultType_switch plainLib Int8 val = Inl ErrRange)))
   \<and> populateDefaultType_loop (twoSources [(''N'', ''300x'')] [] [(''N'', ''5'')] []) plainLib
         (gfiOf ''N'' [] Int8 Invalid 0) [''env'', ''flag''] None (\<lambda>i. IntV 3, ((), []))
       = (Some ErrRange, \<lambda>i. IntV 3, ((), [EvGet ''env'' ''N'' None]))"
proof -
  let ?S1 = "twoSources [(''N'', ''5'')] [] [(''N'', ''x'')] []"
  let ?S2 = "twoSources [(''N'', ''4'')] [] [(''N'', ''5'')] []"
  let ?S3 = "twoSources [(''N'', ''300x'')] [] [(''N'', ''5'')] []"
  let ?g = "gfiOf ''N'' [] IntK Invalid 0"
  let ?h = "gfiOf ''N'' [] Int8 Invalid 0"
  let ?v = "\<lambda>i :: nat. IntV 3 :: int Value"
  have kn: "keyName ?g ''env'' = ''N''" "keyName ?g ''flag'' = ''N''" "keyName ?h z = ''N''"
    "goValue ?g = 0" "Kind (Typ (goField ?g)) = IntK" "Kind (Typ (goField ?h)) = Int8" for z
    by (simp_all add: keyName_def gfiOf_def fieldOf_def)
  have pre1: "populateDefaultType_loop ?S1 plainLib ?g [''env''] None (?v, ((), []))
              = (None, ?v(0 := IntV 5), ((), [EvGet ''env'' ''N'' None]))"
    by (simp add: run_defs)
  have z1: "?S1 ''flag'' = Some (tableSource [(''N'', ''x'')] [])"
    by (simp add: twoSources_def)
  have g1: "\<forall>p' w. fst (Get (tableSource [(''N'', ''x'')] []) (keyName ?g ''flag'') p' w) = Inr ''x''"
    by (simp add: kn tableSource_def)
  have s1: "populateDefaultType_switch plainLib (Kind (Typ (goField ?g))) ''x'' = Inl ErrSyntax"
    by (simp add: run_defs)
  note t1 = scalar_rounds [where S = ?S1 and lib = plainLib and gfi = ?g and pre = "[''env'']"
        and p = None and v = ?v and W = "((), [])" and ?v1.0 = "?v(0 := IntV 5)"
        and ?W1.0 = "((), [EvGet ''env'' ''N'' None])" and z = "''flag''"
        and sz = "tableSource [(''N'', ''x'')] []" and val = "''x''" and e = ErrSyntax and post = "[]"]
  from t1 [THEN conjunct2, THEN conjunct1, THEN mp, OF conjI [OF pre1 conjI [OF z1 conjI [OF g1 s1]]]]
  obtain p' w2 where
    "populateDefaultType_loop ?S1 plainLib ?g ([''env''] @ ''flag'' # []) None (?v, ((), []))
       = (Some ErrSyntax, ?v(0 := IntV 5),
          (w2, snd ((), [EvGet ''env'' ''N'' None]) @ [EvGet ''flag'' (keyName ?g ''flag'') p']))"
    by (elim exE conjE)
  then have "populateDefaultType_loop ?S1 plainLib ?g ([''env''] @ ''flag'' # []) None (?v, ((), []))
            = (Some ErrSyntax, ?v(0 := IntV 5), (w2, [EvGet ''env'' ''N'' None] @ [EvGet ''flag'' ''N'' p']))"
    unfolding kn snd_conv .
  then have 1: "\<exists>p' w2. populateDefaultType_loop ?S1 plainLib ?g ([''env''] @ ''flag'' # []) None (?v, ((), []))
            = (Some ErrSyntax, ?v(0 := IntV 5), (w2, [EvGet ''env'' ''N'' None] @ [EvGet ''flag'' ''N'' p']))"
    by (intro exI)
  have run2: "populateDefaultType_loop ?S2 plainLib ?g [''env'', ''flag''] None (?v, ((), []))
              = (None, ?v(0 := IntV 5),
                 ((), [EvGet ''env'' ''N'' None, EvGet ''flag'' ''N'' (Some ''4'')]))"
    by (simp add: run_defs)
  note t2 = scalar_rounds [where S = ?S2 and lib = plainLib and gfi = ?g and os = "[''env'', ''flag'']"
        and p = None and v = ?v and W = "((), [])" and v' = "?v(0 := IntV 5)"
        and W' = "((), [EvGet ''env'' ''N'' None, EvGet ''flag'' ''N'' (Some ''4'')])"]
  have ne: "[''env'', ''flag''] \<noteq> []" by simp
  from t2 [THEN conjunct1, THEN mp, OF run2, THEN conjunct2, THEN conjunct2, THEN conjunct2,
      THEN mp, OF ne]
  have 2: "\<exists>sz val. ?S2 ''flag'' = Some sz \<and> Get sz ''N'' (Some ''4'') () = (Inr val, ())
         \<and> populateDefaultType_switch plainLib IntK val = Inr (IntV 5)"
    by (simp add: kn)
  have run3: "populateDefaultType_loop ?S3 plainLib ?h [''env'', ''flag''] None (?v, ((), []))
              = (Some ErrRange, ?v, ((), [EvGet ''env'' ''N'' None]))"
    by (simp add: run_defs)
  note t3 = scalar_rounds [where S = ?S3 and lib = plainLib and gfi = ?h and os = "[''env'', ''flag'']"
        and p = None and v = ?v and W = "((), [])" and e' = ErrRange and ?v2.0 = ?v
        and ?W2.0 = "((), [EvGet ''env'' ''N'' None])"]
  have 3: "\<exists>pre z post p' W1. [''env'', ''flag''] = pre @ z # post
         \<and> populateDefaultType_loop ?S3 plainLib ?h pre None (?v, ((), [])) = (None, ?v, W1)
         \<and> (callGet ?S3 z ''N'' p' W1 = (Inl ErrRange, ((), [EvGet ''env'' ''N'' None]))
             \<or> (\<exists>val. callGet ?S3 z ''N'' p' W1 = (Inr val, ((), [EvGet ''env'' ''N'' None]))
                   \<and> populateDefaultType_switch plainLib Int8 val = Inl ErrRange))"
    using t3 [THEN conjunct2, THEN conjunct2, THEN mp, OF run3] unfolding kn .
  from 1 2 3 run3 show ?thesis by (intro conjI)
qed

text \<open>
  The claim as stated fails: \<^verbatim>\<open>env\<close> returns the malformed \<^verbatim>\<open>abc\<close> for an integer field, and
  \<^verbatim>\<open>flag\<close> would replace it by the well-formed \<^verbatim>\<open>5\<close>; the run aborts with a syntax error in the
  first round and \<^verbatim>\<open>flag\<close> is never called.
\<close>

theorem malformed_first_value:
  "populateDefaultType (twoSources [(''PORT'', ''abc'')] [] [(''PORT'', ''5'')] []) plainLib
     (gfiOf ''PORT'' [] IntK Invalid 0) [''env'', ''flag''] (\<lambda>i. IntV 0, ((), []))
   = (Some ErrSyntax, (\<lambda>i. IntV 0), ((), [EvGet ''env'' ''PORT'' None]))
   \<and> Get (tableSource [(''PORT'', ''5'')] []) ''PORT'' (Some ''abc'') () = (Inr ''5'', ())
   \<and> populateDefaultType_switch plainLib IntK ''5'' = Inr (IntV 5)"
  by (simp add: run_defs)

section \<open>Array population\<close>

lemma appendElems_ok:
  fixes v :: "'f Store"
  shows "appendElems ek i ss v = (None, v') \<Longrightarrow>
   \<exists>xs. map (sliceElem ek) ss = map Inr xs
        \<and> sliceElems (v' i) = sliceElems (v i) @ xs
        \<and> (\<forall>j. j \<noteq> i \<longrightarrow> v' j = v j)"
proof (induction ss arbitrary: v)
  case Nil
  then show ?case by simp
next
  case (Cons s ss)
  from Cons.prems obtain x :: "'f Value" where x: "sliceElem ek s = Inr x"
    by (cases "sliceElem ek s :: error + 'f Value") simp_all
  with Cons.prems have "appendElems ek i ss (v(i := SliceV (sliceElems (v i) @ [x]))) = (None, v')"
    by simp
  from Cons.IH [OF this] obtain xs where
    "map (sliceElem ek) ss = map Inr xs"
    "sliceElems (v' i) = sliceElems (SliceV (sliceElems (v i) @ [x])) @ xs"
    "\<forall>j. j \<noteq> i \<longrightarrow> v' j = v j"
    by auto
  with x have "map (sliceElem ek) (s # ss) = map Inr (x # xs)
        \<and> sliceElems (v' i) = sliceElems (v i) @ (x # xs)
        \<and> (\<forall>j. j \<noteq> i \<longrightarrow> v' j = v j)"
    by (simp add: sliceElems_def)
  then show ?case by blast
qed

lemma slice_round:
  assumes a: "S a = Some sa"
    and kind: "Kind (Typ (goField gfi)) = Slice" "ElemKind (Typ (goField gfi)) \<in> set sliceElemKinds"
    and run: "populateSliceType_loop S gfi (a # rest) p (v, (w, tr)) = (None, v', (w', tr'))"
  shows "\<exists>va w1 xa v1.
           GetArray sa (keyName gfi a) p w = (Inr va, w1)
         \<and> map (sliceElem (ElemKind (Typ (goField gfi)))) va = map Inr xa
         \<and> sliceElems (v1 (goValue gfi)) = sliceElems (v (goValue gfi)) @ xa
         \<and> (\<forall>j. j \<noteq> goValue gfi \<longrightarrow> v1 j = v j)
         \<and> populateSliceType_loop S gfi rest p (v1, (w1, tr @ [EvGetArray a (keyName gfi a) p]))
             = (None, v', (w', tr'))"
proof -
  obtain ra w1 where ga: "GetArray sa (keyName gfi a) p w = (ra, w1)"
    by (cases "GetArray sa (keyName gfi a) p w")
  from run a ga obtain va where va: "ra = Inr va"
    by (cases ra) (simp_all add: callGetArray_def)
  obtain r1 v1 where ap: "appendElems (ElemKind (Typ (goField gfi))) (goValue gfi) va v = (r1, v1)"
    by (cases "appendElems (ElemKind (Typ (goField gfi))) (goValue gfi) va v")
  from run a ga va ap kind have r1: "r1 = None"
    by (cases r1) (simp_all add: callGetArray_def populateSliceType_switch_def)
  from run a ga va ap kind r1
  have rest: "populateSliceType_loop S gfi rest p (v1, (w1, tr @ [EvGetArray a (keyName gfi a) p]))
              = (None, v', (w', tr'))"
    by (simp add: callGetArray_def populateSliceType_switch_def)
  from appendElems_ok [OF ap [unfolded r1]] ga va rest show ?thesis by blast
qed

text \<open>
  C3. As amended: for a slice field whose element kind is string or an integer kind and
  \<^verbatim>\<open>order = [a, b]\<close>, a run of \<^verbatim>\<open>populateSliceType\<close> that succeeds has called \<^verbatim>\<open>a.GetArray\<close> and
  then \<^verbatim>\<open>b.GetArray\<close>, both with nil as previous value, and the field holds the elements it held
  before the run followed by the coerced elements of \<^verbatim>\<open>a.GetArray\<close> and then those of
  \<^verbatim>\<open>b.GetArray\<close>, nothing removed; for a field that starts empty this is the concatenation of the
  two.
\<close>

theorem slice_two_sources:
  assumes a: "S a = Some sa" and b: "S b = Some sb"
    and kind: "Kind (Typ (goField gfi)) = Slice" "ElemKind (Typ (goField gfi)) \<in> set sliceElemKinds"
    and run: "populateSliceType S gfi [a, b] (v, (w, tr)) = (None, v', (w', tr'))"
  shows "\<exists>va w1 vb xa xb.
           GetArray sa (keyName gfi a) None w = (Inr va, w1)
         \<and> GetArray sb (keyName gfi b) None w1 = (Inr vb, w')
         \<and> tr' = tr @ [EvGetArray a (keyName gfi a) None, EvGetArray b (keyName gfi b) None]
         \<and> map (sliceElem (ElemKind (Typ (goField gfi)))) va = map Inr xa
         \<and> map (sliceElem (ElemKind (Typ (goField gfi)))) vb = map Inr xb
         \<and> sliceElems (v' (goValue gfi)) = sliceElems (v (goValue gfi)) @ xa @ xb
         \<and> (\<forall>j. j \<noteq> goValue gfi \<longrightarrow> v' j = v j)"
proof -
  from run have "populateSliceType_loop S gfi [a, b] None (v, (w, tr)) = (None, v', (w', tr'))"
    by (simp only: populateSliceType_def)
  from slice_round [OF a kind this] obtain va w1 xa v1 where 1:
    "GetArray sa (keyName gfi a) None w = (Inr va, w1)"
    "map (sliceElem (ElemKind (Typ (goField gfi)))) va = map Inr xa"
    "sliceElems (v1 (goValue gfi)) = sliceElems (v (goValue gfi)) @ xa"
    "\<forall>j. j \<noteq> goValue gfi \<longrightarrow> v1 j = v j"
    "populateSliceType_loop S gfi [b] None (v1, (w1, tr @ [EvGetArray a (keyName gfi a) None]))
       = (None, v', (w', tr'))"
    by blast
  from slice_round [OF b kind 1(5)] obtain vb w2 xb v2 where 2:
    "GetArray sb (keyName gfi b) None w1 = (Inr vb, w2)"
    "map (sliceElem (ElemKind (Typ (goField gfi)))) vb = map Inr xb"
    "sliceElems (v2 (goValue gfi)) = sliceElems (v1 (goValue gfi)) @ xb"
    "\<forall>j. j \<noteq> goValue gfi \<longrightarrow> v2 j = v1 j"
    "populateSliceType_loop S gfi [] None
       (v2, (w2, (tr @ [EvGetArray a (keyName gfi a) None]) @ [EvGetArray b (keyName gfi b) None]))
       = (None, v', (w', tr'))"
    by blast
  from 2(5) have 3: "v' = v2" "w' = w2"
    "tr' = tr @ [EvGetArray a (keyName gfi a) None, EvGetArray b (keyName gfi b) None]"
    by simp_all
  from 1(1-4) 2(1-4) 3 show ?thesis
    by (intro exI [of _ va] exI [of _ w1] exI [of _ vb] exI [of _ xa] exI [of _ xb]) simp
qed

theorem slice_two_sources_witness:
  "populateSliceType (twoSources [] [(''Ports'', [''80'', ''''])] [] [(''Ports'', [''80''])])
     (gfiOf ''Ports'' [] Slice Uint16 1) [''env'', ''flag''] (\<lambda>i. SliceV [], ((), []))
   = (None, (\<lambda>i. SliceV [])(1 := SliceV [UintV 80, UintV 0, UintV 80]),
      ((), [EvGetArray ''env'' ''Ports'' None, EvGetArray ''flag'' ''Ports'' None]))
   \<and> (\<exists>xa xb. map (sliceElem Uint16) [''80'', ''''] = map Inr xa
             \<and> map (sliceElem Uint16) [''80''] = map Inr xb
             \<and> [UintV 80, UintV 0, UintV 80] = [] @ xa @ (xb :: int Value list))"
proof -
  let ?S = "twoSources [] [(''Ports'', [''80'', ''''])] [] [(''Ports'', [''80''])]"
  let ?gfi = "gfiOf ''Ports'' [] Slice Uint16 1"
  let ?v = "(\<lambda>i. SliceV []) :: int Store"
  have a: "?S ''env'' = Some (tableSource [] [(''Ports'', [''80'', ''''])])"
    and b: "?S ''flag'' = Some (tableSource [] [(''Ports'', [''80''])])"
    by (simp_all add: twoSources_def)
  have kind: "Kind (Typ (goField ?gfi)) = Slice" "ElemKind (Typ (goField ?gfi)) \<in> set sliceElemKinds"
    by (simp_all add: gfiOf_def fieldOf_def sliceElemKinds_def)
  have run: "populateSliceType ?S ?gfi [''env'', ''flag''] (?v, ((), []))
             = (None, ?v(1 := SliceV [UintV 80, UintV 0, UintV 80]),
                ((), [EvGetArray ''env'' ''Ports'' None, EvGetArray ''flag'' ''Ports'' None]))"
    by (simp add: run_defs)
  from slice_two_sources [OF a b kind run] run show ?thesis
    by (auto simp: run_defs)
qed

text \<open>
  The claim as stated fails for a field that is not empty before the run: its elements stay in
  front.
\<close>

theorem slice_appends_to_contents:
  "populateSliceType (twoSources [] [(''Tags'', [''1''])] [] [(''Tags'', [''2''])])
     (gfiOf ''Tags'' [] Slice String 0) [''env'', ''flag''] (\<lambda>i. SliceV [StringV ''x''], ((), []))
   = (None, (\<lambda>i. SliceV [StringV ''x''])(0 := SliceV [StringV ''x'', StringV ''1'', StringV ''2'']),
      ((), [EvGetArray ''env'' ''Tags'' None, EvGetArray ''flag'' ''Tags'' None]))
   \<and> GetArray (tableSource [] [(''Tags'', [''1''])]) ''Tags'' None () = (Inr [''1''], ())
   \<and> GetArray (tableSource [] [(''Tags'', [''2''])]) ''Tags'' None () = (Inr [''2''], ())
   \<and> SliceV [StringV ''x'', StringV ''1'', StringV ''2''] \<noteq> (SliceV [StringV ''1'', StringV ''2''] :: int Value)"
  by (simp add: run_defs)

section \<open>Unsupported types\<close>

lemma populateStruct_loop_append:
  "populateStruct_loop S lib ord pre vW = (None, vW1) \<Longrightarrow>
   populateStruct_loop S lib ord (pre @ rest) vW = populateStruct_loop S lib ord rest vW1"
proof (induction pre arbitrary: vW)
  case Nil
  then show ?case by simp
next
  case (Cons g pre)
  obtain r1 vW2 where s: "populateStruct_switch S lib ord g vW = (r1, vW2)"
    by (cases "populateStruct_switch S lib ord g vW")
  with Cons.prems have r1: "r1 = None" by (cases r1) simp_all
  with Cons.prems s have "populateStruct_loop S lib ord pre vW2 = (None, vW1)" by simp
  from Cons.IH [OF this] s r1 show ?case by simp
qed

lemma populateStruct_switch_unsupported:
  "Kind (Typ (goField gfi)) \<in> set unsupportedKinds \<Longrightarrow>
   populateStruct_switch S lib ord gfi vW = (Some ErrUnsupportedFieldType, vW)"
  by (auto simp: unsupportedKinds_def populateStruct_switch_def)

lemma populateSliceType_loop_ignored:
  assumes elem: "ElemKind (Typ (goField gfi)) \<notin> set sliceElemKinds"
    and srcs: "\<forall>n\<in>set os. \<exists>src. S n = Some src
                 \<and> (\<forall>kn p w. \<exists>vals w'. GetArray src kn p w = (Inr vals, w'))"
  shows "\<exists>w'. populateSliceType_loop S gfi os p (v, (w, tr))
              = (None, v, (w', tr @ map (\<lambda>n. EvGetArray n (keyName gfi n) p) os))"
  using srcs
proof (induction os arbitrary: w tr)
  case Nil
  then show ?case by simp
next
  case (Cons n os)
  from Cons.prems obtain src where src: "S n = Some src"
    and ok: "\<forall>kn p w. \<exists>vals w'. GetArray src kn p w = (Inr vals, w')"
    by auto
  from ok obtain vals w1 where g: "GetArray src (keyName gfi n) p w = (Inr vals, w1)"
    by blast
  from Cons.prems have "\<forall>n\<in>set os. \<exists>src. S n = Some src
                 \<and> (\<forall>kn p w. \<exists>vals w'. GetArray src kn p w = (Inr vals, w'))"
    by simp
  from Cons.IH [OF this, of w1 "tr @ [EvGetArray n (keyName gfi n) p]"] src g elem
  show ?case
    by (simp add: callGetArray_def populateSliceType_switch_def)
qed

text \<open>
  C4. As amended: a field of kind Invalid, Uintptr, Complex64, Complex128, Chan, Func, Ptr,
  UnsafePointer, Interface, Map, Struct or Array makes \<^verbatim>\<open>populateStruct\<close> return
  \<^verbatim>\<open>ErrUnsupportedFieldType\<close> when the loop reaches it, the fields before it populated. A slice
  field whose element kind is outside string and the integer kinds produces no error: when the
  sources answer, \<^verbatim>\<open>GetArray\<close> is called on each source in order with nil, what it returns is
  dropped, and the record is unchanged.
\<close>

theorem unsupported_field_types:
  "(Kind (Typ (goField gfi)) \<in> set unsupportedKinds
      \<and> populateStruct_loop S lib ord pre vW = (None, vW')
    \<longrightarrow> populateStruct_loop S lib ord (pre @ gfi # rest) vW = (Some ErrUnsupportedFieldType, vW'))
   \<and> (Kind (Typ (goField gfi)) = Slice
      \<and> ElemKind (Typ (goField gfi)) \<notin> set sliceElemKinds
      \<and> (\<forall>n\<in>set ord. \<exists>src. S n = Some src
             \<and> (\<forall>kn p w. \<exists>vals w'. GetArray src kn p w = (Inr vals, w')))
    \<longrightarrow> (\<exists>w'. populateStruct_switch S lib ord gfi (v, (w, tr))
               = (None, v, (w', tr @ map (\<lambda>n. EvGetArray n (keyName gfi n) None) ord))))"
proof (intro conjI impI)
  assume "Kind (Typ (goField gfi)) \<in> set unsupportedKinds
      \<and> populateStruct_loop S lib ord pre vW = (None, vW')"
  then show "populateStruct_loop S lib ord (pre @ gfi # rest) vW = (Some ErrUnsupportedFieldType, vW')"
    by (simp add: populateStruct_loop_append populateStruct_switch_unsupported)
next
  assume h: "Kind (Typ (goField gfi)) = Slice
      \<and> ElemKind (Typ (goField gfi)) \<notin> set sliceElemKinds
      \<and> (\<forall>n\<in>set ord. \<exists>src. S n = Some src
             \<and> (\<forall>kn p w. \<exists>vals w'. GetArray src kn p w = (Inr vals, w')))"
  then have "\<exists>w'. populateSliceType_loop S gfi ord None (v, (w, tr))
              = (None, v, (w', tr @ map (\<lambda>n. EvGetArray n (keyName gfi n) None) ord))"
    by (intro populateSliceType_loop_ignored) simp_all
  with h show "\<exists>w'. populateStruct_switch S lib ord gfi (v, (w, tr))
               = (None, v, (w', tr @ map (\<lambda>n. EvGetArray n (keyName gfi n) None) ord))"
    by (simp add: populateStruct_switch_def populateSliceType_def)
qed

theorem unsupported_field_types_witness:
  "populateStruct_loop (twoSources [(''Debug'', ''1'')] [] [] []) plainLib [''env'']
     ([gfiOf ''Debug'' [] Bool Invalid 0] @ gfiOf ''Peer'' [] Struct Invalid 1 # [gfiOf ''Port'' [] IntK Invalid 2])
     (\<lambda>i. OtherV, ((), []))
   = (Some ErrUnsupportedFieldType, (\<lambda>i. OtherV)(0 := BoolV True), ((), [EvGet ''env'' ''Debug'' None]))
   \<and> (\<exists>w'. populateStruct_switch (twoSources [] [(''Rates'', [''1.5''])] [] []) plainLib [''env'', ''flag'']
              (gfiOf ''Rates'' [] Slice Float64 0) (\<lambda>i. SliceV [], ((), []))
            = (None, \<lambda>i. SliceV [],
               (w', [] @ map (\<lambda>n. EvGetArray n (keyName (gfiOf ''Rates'' [] Slice Float64 0) n) None)
                            [''env'', ''flag''])))"
proof -
  let ?S1 = "twoSources [(''Debug'', ''1'')] [] [] []"
  let ?S2 = "twoSources [] [(''Rates'', [''1.5''])] [] []"
  let ?v = "(\<lambda>i. OtherV) :: int Store"
  have k1: "Kind (Typ (goField (gfiOf ''Peer'' [] Struct Invalid 1))) \<in> set unsupportedKinds"
    by (simp add: gfiOf_def fieldOf_def unsupportedKinds_def)
  have pre: "populateStruct_loop ?S1 plainLib [''env''] [gfiOf ''Debug'' [] Bool Invalid 0] (?v, ((), []))
             = (None, (?v(0 := BoolV True), ((), [EvGet ''env'' ''Debug'' None])))"
    by (simp add: populateStruct_switch_def run_defs)
  have k2: "Kind (Typ (goField (gfiOf ''Rates'' [] Slice Float64 0))) = Slice"
    "ElemKind (Typ (goField (gfiOf ''Rates'' [] Slice Float64 0))) \<notin> set sliceElemKinds"
    by (simp_all add: gfiOf_def fieldOf_def sliceElemKinds_def)
  have srcs: "\<forall>n\<in>set [''env'', ''flag'']. \<exists>src. ?S2 n = Some src
             \<and> (\<forall>kn p w. \<exists>vals w'. GetArray src kn p w = (Inr vals, w'))"
    by (simp add: twoSources_def tableSource_def)
  from unsupported_field_types [where gfi = "gfiOf ''Peer'' [] Struct Invalid 1" and S = ?S1
      and lib = plainLib and ord = "[''env'']" and pre = "[gfiOf ''Debug'' [] Bool Invalid 0]"
      and vW = "(?v, ((), []))" and vW' = "(?v(0 := BoolV True), ((), [EvGet ''env'' ''Debug'' None]))"
      and rest = "[gfiOf ''Port'' [] IntK Invalid 2]"]
    k1 pre
  have 1: "populateStruct_loop ?S1 plainLib [''env'']
     ([gfiOf ''Debug'' [] Bool Invalid 0] @ gfiOf ''Peer'' [] Struct Invalid 1 # [gfiOf ''Port'' [] IntK Invalid 2])
     (?v, ((), []))
   = (Some ErrUnsupportedFieldType, ?v(0 := BoolV True), ((), [EvGet ''env'' ''Debug'' None]))"
    by blast
  from unsupported_field_types [where gfi = "gfiOf ''Rates'' [] Slice Float64 0" and S = ?S2
      and lib = plainLib and ord = "[''env'', ''flag'']" and v = "\<lambda>i. SliceV []" and w = "()" and tr = "[]"]
    k2 srcs
  have 2: "\<exists>w'. populateStruct_switch ?S2 plainLib [''env'', ''flag'']
              (gfiOf ''Rates'' [] Slice Float64 0) (\<lambda>i. SliceV [], ((), []))
            = (None, \<lambda>i. SliceV [],
               (w', [] @ map (\<lambda>n. EvGetArray n (keyName (gfiOf ''Rates'' [] Slice Float64 0) n) None)
                            [''env'', ''flag'']))"
    by blast
  from 1 2 show ?thesis by blast
qed

text \<open>
  The claim as stated fails for a record with a \<^verbatim>\<open>[]float64\<close> field: \<^verbatim>\<open>Gofigure\<close> returns no error
  and leaves the field as it was.
\<close>

theorem float_slice_ignored:
  "GetArray (tableSource [] [(''Rates'', [''1.5''])]) ''Rates'' None () = (Inr [''1.5''], ())
   \<and> fst (Gofigure (twoSources [] [(''Rates'', [''1.5''])] [] []) [''env'', ''flag''] plainLib
            (\<lambda>k. 0) (\<lambda>k. 0) (\<lambda>k. 0) floatRates (\<lambda>i. SliceV [], ((), []))) = None
   \<and> fst (snd (Gofigure (twoSources [] [(''Rates'', [''1.5''])] [] []) [''env'', ''flag''] plainLib
            (\<lambda>k. 0) (\<lambda>k. 0) (\<lambda>k. 0) floatRates (\<lambda>i. SliceV [], ((), [])))) 0 = SliceV []
   \<and> snd (snd (snd (Gofigure (twoSources [] [(''Rates'', [''1.5''])] [] []) [''env'', ''flag''] plainLib
            (\<lambda>k. 0) (\<lambda>k. 0) (\<lambda>k. 0) floatRates (\<lambda>i. SliceV [], ((), [])))))
     = [EvInit ''env'', EvInit ''flag'', EvRegister ''env'' ''Rates'', EvRegister ''flag'' ''Rates'',
        EvGetArray ''env'' ''Rates'' None, EvGetArray ''flag'' ''Rates'' None,
        EvCleanup ''env'', EvCleanup ''flag'']"
  by (simp add: plan_defs run_defs floatRates_def upt_rec)

section \<open>The order directive\<close>

lemma nextPair_shorter: "nextPair tag = Some (name, q, rest) \<Longrightarrow> length rest < length tag"
  using length_dropWhile_le [of "\<lambda>c. c = CHR '' ''" tag]
  by (auto simp: nextPair_def Let_def split: if_splits)

lemma nextPair_Nil: "nextPair [] = None"
  by (simp add: nextPair_def)

lemma getStructTags_loop_unfold:
  "getStructTags_loop lib tag m =
     (case nextPair tag of
        None \<Rightarrow> m
      | Some (name, q, rest) \<Rightarrow>
          getStructTags_loop lib rest
            (AList.update name (case Unquote lib q of Inr v \<Rightarrow> v | Inl e \<Rightarrow> []) m))"
  by (subst getStructTags_loop.simps) (simp add: nextPair_Nil)

lemma distinct_getStructTags_loop:
  "distinct (map fst m) \<Longrightarrow> distinct (map fst (getStructTags_loop lib tag m))"
proof (induction tag arbitrary: m rule: length_induct)
  case (1 tag)
  show ?case
  proof (cases "nextPair tag")
    case None
    with 1 show ?thesis by (simp add: getStructTags_loop_unfold)
  next
    case (Some p)
    obtain name q rest where p: "p = (name, q, rest)" by (cases p)
    with Some have "length rest < length tag" by (simp add: nextPair_shorter)
    with 1 Some p show ?thesis
      by (subst getStructTags_loop_unfold) (simp add: distinct_update)
  qed
qed

lemma distinct_getStructTags: "distinct (map fst (getStructTags lib tag))"
  by (simp add: getStructTags_def distinct_getStructTags_loop)

lemma range_order_head:
  "list_ex (\<lambda>p. S p = None) (Split val (CHR '','')) \<Longrightarrow>
   parseGofigureField_range S ((''order'', val) # kvs) gfg = Inl ErrInvalidOrder"
  by (simp add: Let_def)

lemma range_other_head:
  "name \<noteq> ''order'' \<Longrightarrow> \<exists>g. parseGofigureField_range S ((name, v) # kvs) gfg = parseGofigureField_range S kvs g"
  by (cases "argRe_FindStringSubmatch name") auto

lemma range_invalid_order:
  assumes "(k, val) \<in> set kvs" and "\<forall>v'. (k, v') \<in> set kvs \<longrightarrow> v' = val"
    and "k = ''order''"
    and "list_ex (\<lambda>p. S p = None) (Split val (CHR '','')) "
  shows "parseGofigureField_range S kvs gfg = Inl ErrInvalidOrder"
  using assms(1,2)
proof (induction kvs arbitrary: gfg)
  case Nil
  then show ?case by simp
next
  case (Cons kv kvs)
  obtain name v where kv: "kv = (name, v)" by (cases kv)
  show ?case
  proof (cases "name = k")
    case True
    have "(k, v) \<in> set (kv # kvs)" unfolding kv True by (rule list.set_intros(1))
    with Cons.prems(2) have "v = val" by blast
    show ?thesis
      unfolding kv True assms(3) \<open>v = val\<close> by (rule range_order_head [OF assms(4)])
  next
    case False
    from Cons.prems(1) have "(k, val) = kv \<or> (k, val) \<in> set kvs" by (rule set_ConsD [THEN disjE]) blast+
    with kv False have 1: "(k, val) \<in> set kvs" by blast
    have 2: "\<forall>v'. (k, v') \<in> set kvs \<longrightarrow> v' = val"
      using Cons.prems(2) by (meson list.set_intros(2))
    have *: "\<And>g. parseGofigureField_range S kvs g = Inl ErrInvalidOrder"
      using Cons.IH [OF 1 2] .
    from False assms(3) have "name \<noteq> ''order''" by blast
    from range_other_head [OF this, of S v kvs gfg] obtain g
      where "parseGofigureField_range S ((name, v) # kvs) gfg = parseGofigureField_range S kvs g" ..
    then show ?thesis unfolding kv by (simp only: *)
  qed
qed



text \<open>
  C6. If the directive field's tag has a key \<^verbatim>\<open>order\<close> whose value names a source that is
  not registered, \<^verbatim>\<open>ParseStruct\<close> fails with \<^verbatim>\<open>ErrInvalidOrder\<close>, and \<^verbatim>\<open>Gofigure\<close> returns that
  error with the record, the sources' state and the log of calls unchanged: no source is called
  and no field is written.
\<close>

theorem invalid_order_rejected:
  assumes gf: "FieldByName t ''gofigure'' = Some gf"
    and ord: "map_of (getStructTags lib (Tag gf)) ''order'' = Some val"
    and bad: "list_ex (\<lambda>p. S p = None) (Split val (CHR '',''))"
  shows "ParseStruct S D lib rankT t = Inl ErrInvalidOrder
       \<and> Gofigure S D lib rankT rankR rankP t vW = (Some ErrInvalidOrder, vW)"
proof -
  let ?m = "getStructTags lib (Tag gf)"
  have mem: "(''order'', val) \<in> set ?m"
    using ord by (rule map_of_SomeD)
  have uniq: "\<forall>v'. (''order'', v') \<in> set ?m \<longrightarrow> v' = val"
  proof (intro allI impI)
    fix v' assume "(''order'', v') \<in> set ?m"
    with distinct_getStructTags [of lib "Tag gf"] have "map_of ?m ''order'' = Some v'"
      by (rule map_of_is_SomeI)
    with ord show "v' = val" by (simp only: option.inject)
  qed
  have r: "parseGofigureField_range S (rangeMap rankT ?m) g = Inl ErrInvalidOrder" for g
  proof (rule range_invalid_order [where k = "''order''" and val = val])
    show "(''order'', val) \<in> set (rangeMap rankT ?m)"
      using mem by (simp only: rangeMap_def set_sort)
    show "\<forall>v'. (''order'', v') \<in> set (rangeMap rankT ?m) \<longrightarrow> v' = val"
      using uniq by (simp only: rangeMap_def set_sort)
    show "''order'' = ''order''" ..
    show "list_ex (\<lambda>p. S p = None) (Split val (CHR '',''))" by (rule bad)
  qed
  have p: "ParseStruct S D lib rankT t = Inl ErrInvalidOrder"
    by (simp only: ParseStruct_def parseGofigureField_def gf option.case r sum.case)
  then show ?thesis by (simp only: Gofigure_def sum.case simp_thms)
qed

lemma tags_bogusOrder: "getStructTags plainLib ''order:\"flag,bogus\"'' = [(''order'', ''flag,bogus'')]"
  by code_simp

theorem invalid_order_rejected_witness:
  "Gofigure (twoSources [(''PORT'', ''80'')] [] [] []) [''env'', ''flag''] plainLib
     (\<lambda>k. 0) (\<lambda>k. 0) (\<lambda>k. 0) bogusOrder (\<lambda>i. IntV 7, ((), []))
   = (Some ErrInvalidOrder, (\<lambda>i. IntV 7, ((), [])))"
proof -
  have gf: "FieldByName bogusOrder ''gofigure'' = Some (fieldOf ''gofigure'' Interface Invalid ''order:\"flag,bogus\"'')"
    by (simp add: FieldByName_def bogusOrder_def fieldOf_def)
  have ord: "map_of (getStructTags plainLib (Tag (fieldOf ''gofigure'' Interface Invalid ''order:\"flag,bogus\"''))) ''order''
             = Some ''flag,bogus''"
    by (simp add: fieldOf_def tags_bogusOrder)
  have bad: "list_ex (\<lambda>p. twoSources [(''PORT'', ''80'')] [] [] [] p = None) (Split ''flag,bogus'' (CHR '',''))"
    by (simp add: twoSources_def)
  from invalid_order_rejected [OF gf ord bad] show ?thesis by simp
qed


section \<open>Malformed tags\<close>

lemma scanValue_step:
  "i < length tag \<Longrightarrow> tag ! i \<noteq> CHR 0x22 \<Longrightarrow>
   scanValue tag i = scanValue tag (if tag ! i = CHR 0x5C then i + 2 else i + 1)"
  by (subst scanValue.simps) simp

lemma scanValue_stop: "\<not> (i < length tag \<and> tag ! i \<noteq> CHR 0x22) \<Longrightarrow> scanValue tag i = i"
  by (subst scanValue.simps) (simp only: if_False)

lemma scanValue_closed:
  "closedBody body \<Longrightarrow>
   scanValue (pre @ body @ CHR 0x22 # rest) (length pre) = length pre + length body"
proof (induction body arbitrary: pre rule: closedBody.induct)
  case 1
  show ?case by (simp add: scanValue_stop)
next
  case (2 c cs)
  let ?tag = "pre @ (c # cs) @ CHR 0x22 # rest"
  from "2.prems" have nq: "c \<noteq> CHR 0x22" by (simp split: if_splits)
  have at: "?tag ! length pre = c" by simp
  have lt: "length pre < length ?tag" by simp
  show ?case
  proof (cases "c = CHR 0x5C")
    case False
    with "2.prems" nq have cb: "closedBody cs" by simp
    have "scanValue ?tag (length pre) = scanValue ?tag (length pre + 1)"
      using scanValue_step [OF lt] at nq False by simp
    also have "?tag = (pre @ [c]) @ cs @ CHR 0x22 # rest" by simp
    also have "scanValue \<dots> (length pre + 1) = length (pre @ [c]) + length cs"
      using "2.IH"(2) [OF nq False cb, of "pre @ [c]"] by simp
    finally show ?thesis by simp
  next
    case True
    with "2.prems" nq obtain d ds where cs: "cs = d # ds" and cb: "closedBody ds"
      by (cases cs) simp_all
    have "scanValue ?tag (length pre) = scanValue ?tag (length pre + 2)"
      using scanValue_step [OF lt] at nq True by simp
    also have "?tag = (pre @ [c, d]) @ ds @ CHR 0x22 # rest" unfolding cs by simp
    also have "scanValue \<dots> (length pre + 2) = length (pre @ [c, d]) + length ds"
      using "2.IH"(1) [OF nq True cs cb, of "pre @ [c, d]"] by simp
    finally show ?thesis unfolding cs by simp
  qed
qed

lemma scanValue_ge: "i \<le> scanValue tag i"
proof (induction tag i rule: scanValue.induct)
  case (1 tag i)
  show ?case
  proof (cases "i < length tag \<and> tag ! i \<noteq> CHR 0x22")
    case True
    then have "scanValue tag i = scanValue tag (if tag ! i = CHR 0x5C then i + 2 else i + 1)"
      by (simp add: scanValue_step)
    with 1 [OF True] show ?thesis by (auto split: if_splits)
  next
    case False
    then show ?thesis by (simp add: scanValue_stop)
  qed
qed

lemma scanValue_open:
  "openBody body \<Longrightarrow> length (pre @ body) \<le> scanValue (pre @ body) (length pre)"
proof (induction body arbitrary: pre rule: openBody.induct)
  case 1
  show ?case by (simp add: scanValue_stop)
next
  case (2 c cs)
  let ?tag = "pre @ c # cs"
  from "2.prems" have nq: "c \<noteq> CHR 0x22" by (simp split: if_splits)
  have at: "?tag ! length pre = c" by simp
  have lt: "length pre < length ?tag" by simp
  show ?case
  proof (cases "c = CHR 0x5C")
    case False
    with "2.prems" nq have ob: "openBody cs" by simp
    have "scanValue ?tag (length pre) = scanValue ?tag (length pre + 1)"
      using scanValue_step [OF lt] at nq False by simp
    also have "\<dots> = scanValue ((pre @ [c]) @ cs) (length (pre @ [c]))" by simp
    finally show ?thesis using "2.IH"(2) [OF nq False ob, of "pre @ [c]"] by simp
  next
    case True
    have st: "scanValue ?tag (length pre) = scanValue ?tag (length pre + 2)"
      using scanValue_step [OF lt] at nq True by simp
    show ?thesis
    proof (cases cs)
      case Nil
      have "length pre + 2 \<le> scanValue ?tag (length pre + 2)" by (rule scanValue_ge)
      with st Nil show ?thesis by simp
    next
      case (Cons d ds)
      with "2.prems" nq True have ob: "openBody ds" by simp
      have "scanValue ?tag (length pre + 2) = scanValue ((pre @ [c, d]) @ ds) (length (pre @ [c, d]))"
        unfolding Cons by simp
      with st "2.IH"(1) [OF nq True Cons ob, of "pre @ [c, d]"] show ?thesis
        unfolding Cons by simp
    qed
  qed
qed

lemma storePair_apply:
  "storePair lib m (n, name, body)
   = AList.update name
       (case Unquote lib (CHR 0x22 # body @ [CHR 0x22]) of Inr v \<Rightarrow> v | Inl e \<Rightarrow> []) m"
  by (simp add: storePair_def)

lemma nextPair_pair:
  assumes "list_all isNameChar name" and "closedBody body"
  shows "nextPair (pairText (n, name, body) @ rest) = Some (name, CHR 0x22 # body @ [CHR 0x22], rest)"
proof -
  let ?tag1 = "name @ CHR '':'' # CHR 0x22 # body @ CHR 0x22 # rest"
  let ?tag2 = "CHR 0x22 # body @ CHR 0x22 # rest"
  have nm: "\<forall>c\<in>set name. isNameChar c" using assms(1) by (simp only: list_all_iff)
  have hd1: "\<not> (\<lambda>c. c = CHR '' '') (hd ?tag1)"
    using nm by (cases name) (simp_all add: isNameChar_def)
  have t1: "dropWhile (\<lambda>c. c = CHR '' '') (pairText (n, name, body) @ rest) = ?tag1"
  proof -
    have "pairText (n, name, body) @ rest = replicate n (CHR '' '') @ ?tag1"
      by (simp add: pairText_def)
    moreover have "dropWhile (\<lambda>c. c = CHR '' '') (replicate n (CHR '' '') @ ?tag1)
                   = dropWhile (\<lambda>c. c = CHR '' '') ?tag1"
      by (rule dropWhile_append2) simp
    moreover have "dropWhile (\<lambda>c. c = CHR '' '') ?tag1 = ?tag1"
      using hd1 by (cases ?tag1) simp_all
    ultimately show ?thesis by simp
  qed
  have ne: "?tag1 \<noteq> []" by simp
  have tw: "takeWhile isNameChar ?tag1 = name"
    using nm by (simp add: isNameChar_def)
  have i: "length (takeWhile isNameChar ?tag1) = length name" by (simp only: tw)
  have c1: "?tag1 ! length name = CHR '':''" by (simp add: nth_append)
  have c2: "?tag1 ! (length name + 1) = CHR 0x22" by (simp add: nth_append)
  have len: "\<not> length name + 1 \<ge> length ?tag1" by simp
  have tk: "take (length name) ?tag1 = name" by simp
  have dr: "drop (length name + 1) ?tag1 = ?tag2" by simp
  have sc: "scanValue ?tag2 1 = 1 + length body"
    using scanValue_closed [OF assms(2), of "[CHR 0x22]" rest] by simp
  have j: "\<not> 1 + length body \<ge> length ?tag2" by simp
  have tq: "take (1 + length body + 1) ?tag2 = CHR 0x22 # body @ [CHR 0x22]" by simp
  have dq: "drop (1 + length body + 1) ?tag2 = rest" by simp
  show ?thesis
    unfolding nextPair_def Let_def t1 i
    by (simp only: ne c1 c2 len tk dr sc j tq dq if_False simp_thms)
qed

lemma nextPair_stops:
  assumes "stops rest"
  shows "nextPair rest = None"
proof -
  let ?r = "dropWhile (\<lambda>c. c = CHR '' '') rest"
  let ?i = "length (takeWhile isNameChar ?r)"
  have dd: "dropWhile isNameChar ?r = drop ?i ?r" by (rule dropWhile_eq_drop)
  show ?thesis
  proof (cases "?r = []")
    case True
    then show ?thesis unfolding nextPair_def Let_def by simp
  next
    case False
    show ?thesis
    proof (cases "?i + 1 \<ge> length ?r")
      case True
      then show ?thesis unfolding nextPair_def Let_def by (simp only: False if_False if_True simp_thms)
    next
      case short: False
      define c1 where "c1 = ?r ! ?i"
      define c2 where "c2 = ?r ! (?i + 1)"
      define body where "body = drop (?i + 2) ?r"
      from short have l1: "?i < length ?r" and l2: "Suc ?i < length ?r" by simp_all
      have d2: "drop (?i + 1) ?r = c2 # body"
        using Cons_nth_drop_Suc [OF l2] unfolding c2_def body_def by simp
      have d: "drop ?i ?r = c1 # c2 # body"
        using Cons_nth_drop_Suc [OF l1] d2 unfolding c1_def by simp
      have n1: "?r ! ?i = c1" by (simp only: c1_def)
      have n2: "?r ! (?i + 1) = c2" by (simp only: c2_def)
      from assms False d have bad: "c1 \<noteq> CHR '':'' \<or> c2 \<noteq> CHR 0x22 \<or> openBody body"
        unfolding stops_def Let_def dd by auto
      show ?thesis
      proof (cases "c1 \<noteq> CHR '':'' \<or> c2 \<noteq> CHR 0x22")
        case True
        then show ?thesis
          unfolding nextPair_def Let_def n1 n2
          by (simp only: False if_False if_True simp_thms) 
      next
        case ok: False
        with bad have "openBody body" by blast
        from scanValue_open [OF this, of "[c2]"] have "length (c2 # body) \<le> scanValue (c2 # body) 1"
          by simp
        then show ?thesis
          unfolding nextPair_def Let_def d2
          by (simp only: if_True if_cancel)
      qed
    qed
  qed
qed

lemma getStructTags_loop_pairs:
  assumes "list_all wfPair ps" and "stops rest"
  shows "getStructTags_loop lib (concat (map pairText ps) @ rest) m = foldl (storePair lib) m ps"
  using assms(1)
proof (induction ps arbitrary: m)
  case Nil
  show ?case
    using nextPair_stops [OF assms(2)] by (subst getStructTags_loop_unfold) simp
next
  case (Cons t ps)
  obtain n name body where t: "t = (n, name, body)" by (cases t)
  from Cons.prems have wt: "wfPair (n, name, body)" and rest: "list_all wfPair ps"
    unfolding t by simp_all
  from wt have wf: "list_all isNameChar name" "closedBody body"
    by (simp_all add: wfPair_def)
  have np: "nextPair (pairText (n, name, body) @ concat (map pairText ps) @ rest)
            = Some (name, CHR 0x22 # body @ [CHR 0x22], concat (map pairText ps) @ rest)"
    by (rule nextPair_pair [OF wf])
  show ?case
    by (subst getStructTags_loop_unfold) (simp add: np Cons.IH [OF rest] storePair_apply t)
qed

lemma not_openBody_split:
  "\<not> openBody b \<Longrightarrow> \<exists>body rest. closedBody body \<and> b = body @ CHR 0x22 # rest"
proof (induction b rule: openBody.induct)
  case 1
  then show ?case by simp
next
  case (2 c cs)
  show ?case
  proof (cases "c = CHR 0x22")
    case True
    have "closedBody [] \<and> c # cs = [] @ CHR 0x22 # cs" unfolding True by simp
    then show ?thesis by blast
  next
    case nq: False
    show ?thesis
    proof (cases "c = CHR 0x5C")
      case False
      with "2.prems" nq have "\<not> openBody cs" by simp
      from "2.IH"(2) [OF nq False this] obtain body rest where
        "closedBody body" "cs = body @ CHR 0x22 # rest" by blast
      with nq False have "closedBody (c # body) \<and> c # cs = (c # body) @ CHR 0x22 # rest" by simp
      then show ?thesis by blast
    next
      case True
      with "2.prems" nq obtain d ds where cs: "cs = d # ds" and "\<not> openBody ds"
        by (cases cs) simp_all
      from "2.IH"(1) [OF nq True cs this(2)] obtain body rest where
        "closedBody body" "ds = body @ CHR 0x22 # rest" by blast
      with nq True cs have "closedBody (c # d # body) \<and> c # cs = (c # d # body) @ CHR 0x22 # rest"
        by simp
      then show ?thesis by blast
    qed
  qed
qed

lemma takeWhile_eq_replicate:
  "takeWhile (\<lambda>c. c = x) xs = replicate (length (takeWhile (\<lambda>c. c = x) xs)) x"
  by (induction xs) simp_all

lemma not_stops_pair:
  assumes "\<not> stops tag"
  shows "\<exists>t rest. wfPair t \<and> tag = pairText t @ rest"
proof -
  let ?sp = "takeWhile (\<lambda>c. c = CHR '' '') tag"
  let ?r = "dropWhile (\<lambda>c. c = CHR '' '') tag"
  let ?name = "takeWhile isNameChar ?r"
  from assms obtain c1 c2 b where d: "dropWhile isNameChar ?r = c1 # c2 # b"
    and ok: "c1 = CHR '':''" "c2 = CHR 0x22" "\<not> openBody b"
    unfolding stops_def Let_def
    by (cases "dropWhile isNameChar ?r"; cases "tl (dropWhile isNameChar ?r)") auto
  from not_openBody_split [OF ok(3)] obtain body rest where
    cb: "closedBody body" and b: "b = body @ CHR 0x22 # rest" by blast
  have nm: "list_all isNameChar ?name"
    unfolding list_all_iff by (blast dest: set_takeWhileD)
  have "tag = ?sp @ ?r" by simp
  also have "?r = ?name @ dropWhile isNameChar ?r" by simp
  also have "dropWhile isNameChar ?r = CHR '':'' # CHR 0x22 # body @ CHR 0x22 # rest"
    unfolding d ok b ..
  also have "?sp = replicate (length ?sp) (CHR '' '')" by (rule takeWhile_eq_replicate)
  finally have "tag = pairText (length ?sp, ?name, body) @ rest"
    by (simp add: pairText_def)
  moreover have "wfPair (length ?sp, ?name, body)"
    using nm cb by (simp add: wfPair_def)
  ultimately show ?thesis by blast
qed

lemma length_pairText: "0 < length (pairText t)"
  by (cases t) (simp add: pairText_def)

lemma tag_decomposition:
  "\<exists>ps rest. list_all wfPair ps \<and> stops rest \<and> tag = concat (map pairText ps) @ rest"
proof (induction tag rule: length_induct)
  case (1 tag)
  show ?case
  proof (cases "stops tag")
    case True
    then have "list_all wfPair [] \<and> stops tag \<and> tag = concat (map pairText []) @ tag" by simp
    then show ?thesis by blast
  next
    case False
    from not_stops_pair [OF this] obtain t rest where t: "wfPair t" "tag = pairText t @ rest"
      by blast
    with length_pairText [of t] have "length rest < length tag" by simp
    with 1 obtain ps rest' where
      *: "list_all wfPair ps" "stops rest'" "rest = concat (map pairText ps) @ rest'" by blast
    with t have "list_all wfPair (t # ps) \<and> stops rest' \<and> tag = concat (map pairText (t # ps)) @ rest'"
      by simp
    then show ?thesis by blast
  qed
qed

text \<open>
  C7. \<^verbatim>\<open>getStructTags\<close> returns a map for every tag and has no error result. Every tag is a
  sequence of well-formed pairs followed by a text at which parsing stops, the end of the tag or
  a malformed token (no colon and quote after the name, or a quote that is not closed); and
  for every such reading of a tag the result is the map of the pairs before that text, whatever
  follows.
\<close>

theorem getStructTags_prefix:
  "(list_all wfPair ps \<and> stops rest
     \<longrightarrow> getStructTags lib (concat (map pairText ps) @ rest) = foldl (storePair lib) [] ps)
   \<and> (\<exists>ps' rest'. list_all wfPair ps' \<and> stops rest' \<and> tag = concat (map pairText ps') @ rest')"
  using getStructTags_loop_pairs [of ps rest lib "[]"] tag_decomposition [of tag]
  unfolding getStructTags_def by blast

theorem getStructTags_prefix_witness:
  "getStructTags plainLib brokenTag = [(''env'', ''PORT''), (''flag'', ''port'')]
   \<and> getStructTags plainLib openTag = [(''env'', ''PORT''), (''flag'', ''port'')]"
proof -
  let ?ps = "[(0, ''env'', ''PORT''), (2, ''flag'', ''port'')]"
  let ?r1 = "'' help \"listen port\"''"
  let ?r2 = "'' help:\"listen port''"
  have wf: "list_all wfPair ?ps" by (simp add: wfPair_def isNameChar_def)
  have st1: "stops ?r1" by (simp add: stops_def isNameChar_def)
  have st2: "stops ?r2" by (simp add: stops_def isNameChar_def)
  have tg1: "brokenTag = concat (map pairText ?ps) @ ?r1"
    by (simp add: brokenTag_def pairText_def numeral_2_eq_2)
  have tg2: "openTag = concat (map pairText ?ps) @ ?r2"
    by (simp add: openTag_def pairText_def numeral_2_eq_2)
  from getStructTags_prefix [of ?ps ?r1 plainLib] wf st1
  have 1: "getStructTags plainLib (concat (map pairText ?ps) @ ?r1) = foldl (storePair plainLib) [] ?ps"
    by blast
  from getStructTags_prefix [of ?ps ?r2 plainLib] wf st2
  have 2: "getStructTags plainLib (concat (map pairText ?ps) @ ?r2) = foldl (storePair plainLib) [] ?ps"
    by blast
  from 1 2 show ?thesis
    unfolding tg1 [symmetric] tg2 [symmetric] by (simp add: storePair_def plainLib_def)
qed

section \<open>Per-source parameters\<close>

lemma upper_not_lower: "isUpper c \<Longrightarrow> \<not> isLower c"
  by (auto simp: isUpper_def isLower_def)

lemma argRe_matchAt_Cons:
  "dropWhile isLower s = u # r \<Longrightarrow>
   argRe_matchAt s =
     (if takeWhile isLower s \<noteq> [] \<and> isUpper u \<and> takeWhile isLower r \<noteq> []
      then Some (takeWhile isLower s, u # takeWhile isLower r) else None)"
  unfolding argRe_matchAt_def Let_def by (simp only: list.case)

lemma argRe_matchAt_Nil: "dropWhile isLower s = [] \<Longrightarrow> argRe_matchAt s = None"
  unfolding argRe_matchAt_def Let_def by (simp only: list.case)

lemma argRe_matchAt_greedy:
  assumes "p \<noteq> []" "list_all isLower p" "isUpper u" "ls \<noteq> []" "list_all isLower ls"
    and "post = [] \<or> \<not> isLower (hd post)"
  shows "argRe_matchAt (p @ u # ls @ post) = Some (p, u # ls)"
proof -
  have nl: "\<not> isLower u" using assms(3) by (rule upper_not_lower)
  have ap: "\<forall>x\<in>set p. isLower x" and al: "\<forall>x\<in>set ls. isLower x"
    using assms(2,5) by (simp_all only: list_all_iff)
  have t: "takeWhile isLower (p @ u # ls @ post) = p"
    using ap nl by (simp add: takeWhile_tail)
  have d: "dropWhile isLower (p @ u # ls @ post) = u # ls @ post"
    using ap nl by simp
  have tp: "takeWhile isLower post = []"
    using assms(6) by (simp only: takeWhile_eq_Nil_iff)
  have l: "takeWhile isLower (ls @ post) = ls"
    using al tp by simp
  have "p \<noteq> [] \<and> isUpper u \<and> ls \<noteq> []"
    using assms(1,3,4) by blast
  then show ?thesis
    unfolding argRe_matchAt_Cons [OF d] t l by (rule if_P)
qed

lemma argRe_matchAt_None_Nil: "argRe_matchAt [] = None"
  by (simp add: argRe_matchAt_def)

lemma argRe_matchAt_exact:
  assumes "argRe_matchAt s = Some (p, q)"
  shows "\<exists>u ls post. s = p @ (u # ls) @ post \<and> q = u # ls \<and> p \<noteq> [] \<and> list_all isLower p
           \<and> isUpper u \<and> ls \<noteq> [] \<and> list_all isLower ls \<and> (post = [] \<or> \<not> isLower (hd post))"
proof (cases "dropWhile isLower s")
  case Nil
  from argRe_matchAt_Nil [OF this] assms show ?thesis by simp
next
  case (Cons u r)
  let ?p = "takeWhile isLower s" and ?ls = "takeWhile isLower r" and ?post = "dropWhile isLower r"
  from assms have m: "(if ?p \<noteq> [] \<and> isUpper u \<and> ?ls \<noteq> [] then Some (?p, u # ?ls) else None) = Some (p, q)"
    unfolding argRe_matchAt_Cons [OF Cons] .
  have c: "?p \<noteq> [] \<and> isUpper u \<and> ?ls \<noteq> []"
  proof (rule ccontr)
    assume "\<not> (?p \<noteq> [] \<and> isUpper u \<and> ?ls \<noteq> [])"
    then have "(if ?p \<noteq> [] \<and> isUpper u \<and> ?ls \<noteq> [] then Some (?p, u # ?ls) else None) = None"
      by (rule if_not_P)
    with m show False by (simp only: option.distinct)
  qed
  then have "(if ?p \<noteq> [] \<and> isUpper u \<and> ?ls \<noteq> [] then Some (?p, u # ?ls) else None) = Some (?p, u # ?ls)"
    by (rule if_P)
  with m have pq: "p = ?p" "q = u # ?ls"
    by (simp_all only: option.inject prod.inject)
  have 1: "?p @ u # r = s"
    using takeWhile_dropWhile_id [of isLower s] unfolding Cons .
  have 2: "?ls @ ?post = r" by (rule takeWhile_dropWhile_id)
  have "?p @ (u # ?ls) @ ?post = ?p @ u # (?ls @ ?post)"
    by (simp only: append_Cons append_Nil append_assoc)
  also have "\<dots> = ?p @ u # r" by (simp only: 2)
  also have "\<dots> = s" by (rule 1)
  finally have s: "s = ?p @ (u # ?ls) @ ?post" by (rule sym)
  have lp: "list_all isLower ?p"
    unfolding list_all_iff by (blast dest: set_takeWhileD)
  have ll: "list_all isLower ?ls"
    unfolding list_all_iff by (blast dest: set_takeWhileD)
  have gr: "?post = [] \<or> \<not> isLower (hd ?post)"
    using hd_dropWhile [of isLower r] by blast
  have "s = ?p @ (u # ?ls) @ ?post \<and> u # ?ls = u # ?ls \<and> ?p \<noteq> []
        \<and> list_all isLower ?p \<and> isUpper u \<and> ?ls \<noteq> [] \<and> list_all isLower ?ls
        \<and> (?post = [] \<or> \<not> isLower (hd ?post))"
    using s c lp ll gr by (intro conjI) (rule refl | blast)+
  then show ?thesis unfolding pq by (intro exI)
qed

lemma argReAt_iff: "argReAt s = (argRe_matchAt s \<noteq> None)"
proof
  assume "argReAt s"
  then obtain p u ls post where s: "s = p @ u # ls @ post" and c: "p \<noteq> []" "list_all isLower p"
    "isUpper u" "ls \<noteq> []" "list_all isLower ls"
    unfolding argReAt_def by blast
  let ?ls = "ls @ takeWhile isLower post" and ?post = "dropWhile isLower post"
  have 1: "?ls \<noteq> []" using c(4) by simp
  have 2: "list_all isLower ?ls"
    using c(5) unfolding list_all_iff by (auto dest: set_takeWhileD)
  have 3: "?post = [] \<or> \<not> isLower (hd ?post)"
    using hd_dropWhile [of isLower post] by blast
  have "s = p @ u # ?ls @ ?post" unfolding s by simp
  with argRe_matchAt_greedy [OF c(1,2,3) 1 2 3] show "argRe_matchAt s \<noteq> None"
    by (simp only: option.distinct not_False_eq_True)
next
  assume "argRe_matchAt s \<noteq> None"
  then obtain p q where "argRe_matchAt s = Some (p, q)" by (cases "argRe_matchAt s") auto
  from argRe_matchAt_exact [OF this] obtain u ls post where
    "s = p @ (u # ls) @ post" "p \<noteq> []" "list_all isLower p" "isUpper u" "ls \<noteq> []" "list_all isLower ls"
    by blast
  then have "s = p @ u # ls @ post \<and> p \<noteq> [] \<and> list_all isLower p
                  \<and> isUpper u \<and> ls \<noteq> [] \<and> list_all isLower ls"
    by simp
  then show "argReAt s" unfolding argReAt_def by blast
qed

lemma argRe_Find_leftmost:
  assumes "argRe_matchAt s = Some r"
    and "\<forall>i<length pre. argRe_matchAt (drop i (pre @ s)) = None"
  shows "argRe_FindStringSubmatch (pre @ s) = Some r"
  using assms(2)
proof (induction pre)
  case Nil
  from assms(1) obtain c cs where s: "s = c # cs"
    by (cases s) (simp_all add: argRe_matchAt_None_Nil)
  show ?case using assms(1) unfolding s by simp
next
  case (Cons c pre)
  from Cons.prems have here: "argRe_matchAt ((c # pre) @ s) = None"
    by (metis drop0 length_greater_0_conv list.distinct(1))
  have "\<forall>i<length pre. argRe_matchAt (drop i (pre @ s)) = None"
  proof (intro allI impI)
    fix i assume "i < length pre"
    then have "Suc i < length (c # pre)" by simp
    with Cons.prems have "argRe_matchAt (drop (Suc i) ((c # pre) @ s)) = None" by blast
    then show "argRe_matchAt (drop i (pre @ s)) = None" by simp
  qed
  from Cons.IH [OF this] here show ?case by simp
qed

lemma argRe_Find_Some:
  "argRe_FindStringSubmatch n = Some r \<Longrightarrow>
   \<exists>pre s. n = pre @ s \<and> argRe_matchAt s = Some r
           \<and> (\<forall>i<length pre. argRe_matchAt (drop i n) = None)"
proof (induction n)
  case Nil
  then show ?case by simp
next
  case (Cons c cs)
  show ?case
  proof (cases "argRe_matchAt (c # cs)")
    case (Some m)
    with Cons.prems have "argRe_matchAt (c # cs) = Some r" by simp
    then have "c # cs = [] @ (c # cs) \<and> argRe_matchAt (c # cs) = Some r
           \<and> (\<forall>i<length ([] :: string). argRe_matchAt (drop i (c # cs)) = None)" by simp
    then show ?thesis by blast
  next
    case None
    with Cons.prems have "argRe_FindStringSubmatch cs = Some r" by simp
    from Cons.IH [OF this] obtain pre s where ps: "cs = pre @ s" "argRe_matchAt s = Some r"
      "\<forall>i<length pre. argRe_matchAt (drop i cs) = None" by blast
    have "\<forall>i<length (c # pre). argRe_matchAt (drop i (c # cs)) = None"
    proof (intro allI impI)
      fix i assume i: "i < length (c # pre)"
      show "argRe_matchAt (drop i (c # cs)) = None"
      proof (cases i)
        case 0
        then show ?thesis using None by simp
      next
        case (Suc j)
        with i have "j < length pre" by simp
        with ps(3) Suc show ?thesis by simp
      qed
    qed
    with ps(1,2) have "c # cs = (c # pre) @ s \<and> argRe_matchAt s = Some r
           \<and> (\<forall>i<length (c # pre). argRe_matchAt (drop i (c # cs)) = None)" by simp
    then show ?thesis by blast
  qed
qed

lemma argRe_Find_None:
  "(argRe_FindStringSubmatch n = None) = (\<forall>i. argRe_matchAt (drop i n) = None)"
proof (induction n)
  case Nil
  show ?case by (simp add: argRe_matchAt_None_Nil)
next
  case (Cons c cs)
  show ?case
  proof (cases "argRe_matchAt (c # cs)")
    case (Some m)
    have "\<not> (\<forall>i. argRe_matchAt (drop i (c # cs)) = None)"
    proof
      assume "\<forall>i. argRe_matchAt (drop i (c # cs)) = None"
      then have "argRe_matchAt (drop 0 (c # cs)) = None" by (rule spec)
      with Some show False by simp
    qed
    with Some show ?thesis by simp
  next
    case None
    have "(\<forall>i. argRe_matchAt (drop i (c # cs)) = None) = (\<forall>i. argRe_matchAt (drop i cs) = None)"
    proof
      assume a: "\<forall>i. argRe_matchAt (drop i (c # cs)) = None"
      show "\<forall>i. argRe_matchAt (drop i cs) = None"
      proof
        fix i from a have "argRe_matchAt (drop (Suc i) (c # cs)) = None" by blast
        then show "argRe_matchAt (drop i cs) = None" by simp
      qed
    next
      assume a: "\<forall>i. argRe_matchAt (drop i cs) = None"
      show "\<forall>i. argRe_matchAt (drop i (c # cs)) = None"
      proof
        fix i show "argRe_matchAt (drop i (c # cs)) = None"
        proof (cases i)
          case 0
          then show ?thesis using None by simp
        next
          case (Suc j)
          from a have "argRe_matchAt (drop j cs) = None" by blast
          then show ?thesis using Suc by simp
        qed
      qed
    qed
    with None Cons.IH show ?thesis by simp
  qed
qed

lemma range_order_step:
  "parseGofigureField_range S ((''order'', val) # rest) gfg = Inr gfg' \<Longrightarrow>
   parseGofigureField_range S rest (gfg\<lparr>order := Split val (CHR '','')\<rparr>) = Inr gfg'"
  by (simp add: Let_def split: if_splits)

lemma range_param_step:
  "name \<noteq> ''order'' \<Longrightarrow>
   parseGofigureField_range S ((name, val) # rest) gfg
   = parseGofigureField_range S rest (storeParam name val gfg)"
  by (cases "argRe_FindStringSubmatch name") (auto simp: storeParam_def)

lemma hasParam_order: "hasParam (gfg\<lparr>order := x\<rparr>) p q val = hasParam gfg p q val"
  by (simp add: hasParam_def)

lemma hasParam_storeParam_other:
  "paramKey name \<noteq> Some (p, q) \<Longrightarrow> name \<noteq> ''order'' \<Longrightarrow>
   hasParam (storeParam name v gfg) p q val = hasParam gfg p q val"
  by (auto simp: paramKey_def hasParam_def storeParam_def update_conv' split: if_splits option.splits)

lemma hasParam_storeParam_eq:
  "paramKey name = Some (p, q) \<Longrightarrow> hasParam (storeParam name v gfg) p q val = (v = val)"
  by (auto simp: paramKey_def hasParam_def storeParam_def update_conv' split: if_splits option.splits)

lemma paramKey_order: "paramKey ''order'' = None"
  by (simp add: paramKey_def)

lemma range_last:
  assumes "parseGofigureField_range S kvs gfg = Inr gfg'"
  shows "hasParam gfg' p q val
         = (if filter (\<lambda>kv. paramKey (fst kv) = Some (p, q)) kvs = [] then hasParam gfg p q val
            else snd (last (filter (\<lambda>kv. paramKey (fst kv) = Some (p, q)) kvs)) = val)"
  using assms
proof (induction kvs arbitrary: gfg)
  case Nil
  then show ?case by simp
next
  case (Cons kv kvs)
  let ?P = "\<lambda>kv. paramKey (fst kv) = Some (p, q)"
  obtain n v where kv: "kv = (n, v)" by (cases kv)
  show ?case
  proof (cases "n = ''order''")
    case True
    from Cons.prems have "parseGofigureField_range S kvs (gfg\<lparr>order := Split v (CHR '','')\<rparr>) = Inr gfg'"
      unfolding kv True by (rule range_order_step)
    from Cons.IH [OF this]
    have ih: "hasParam gfg' p q val
         = (if filter ?P kvs = [] then hasParam gfg p q val else snd (last (filter ?P kvs)) = val)"
      by (simp only: hasParam_order)
    have "\<not> ?P kv" unfolding kv True by (simp add: paramKey_order)
    then have "filter ?P (kv # kvs) = filter ?P kvs" by simp
    then show ?thesis using ih by (simp only:)
  next
    case False
    from Cons.prems have "parseGofigureField_range S kvs (storeParam n v gfg) = Inr gfg'"
      unfolding kv by (simp only: range_param_step [OF False])
    from Cons.IH [OF this]
    have ih: "hasParam gfg' p q val
         = (if filter ?P kvs = [] then hasParam (storeParam n v gfg) p q val
            else snd (last (filter ?P kvs)) = val)" .
    show ?thesis
    proof (cases "?P kv")
      case True
      then have k: "paramKey n = Some (p, q)" unfolding kv by simp
      have f: "filter ?P (kv # kvs) = kv # filter ?P kvs" using True by simp
      have s: "hasParam (storeParam n v gfg) p q val = (v = val)"
        using k by (rule hasParam_storeParam_eq)
      show ?thesis
      proof (cases "filter ?P kvs = []")
        case True
        have "hasParam gfg' p q val = (v = val)" using ih True s by simp
        moreover have "snd (last (filter ?P (kv # kvs))) = v" unfolding f True unfolding kv by simp
        moreover have "filter ?P (kv # kvs) \<noteq> []" unfolding f by simp
        ultimately show ?thesis by (simp only: if_False)
      next
        case ne: False
        have "hasParam gfg' p q val = (snd (last (filter ?P kvs)) = val)"
          using ih ne by (simp only: if_False)
        moreover have "last (filter ?P (kv # kvs)) = last (filter ?P kvs)"
          unfolding f using ne by simp
        moreover have "filter ?P (kv # kvs) \<noteq> []" unfolding f by simp
        ultimately show ?thesis by (simp only: if_False)
      qed
    next
      case nk: False
      then have k: "paramKey n \<noteq> Some (p, q)" unfolding kv by simp
      have f: "filter ?P (kv # kvs) = filter ?P kvs" using nk by simp
      have s: "hasParam (storeParam n v gfg) p q val = hasParam gfg p q val"
        using k False by (rule hasParam_storeParam_other)
      show ?thesis using ih unfolding f s .
    qed
  qed
qed

lemma params_parseFields_loop: "params (parseFields_loop lib t is gfg) = params gfg"
  by (induction "is" arbitrary: gfg) (simp_all add: Let_def)

lemma hasParam_parseFields: "hasParam (parseFields lib t gfg) p q val = hasParam gfg p q val"
  by (simp add: hasParam_def parseFields_def params_parseFields_loop)

lemma order_parseFields_loop: "order (parseFields_loop lib t is gfg) = order gfg"
  by (induction "is" arbitrary: gfg) (simp_all add: Let_def)

lemma mem_not_order:
  assumes "isUpper u" "u \<in> set n"
  shows "n \<noteq> ''order''"
proof
  assume "n = ''order''"
  with assms(2) have "u \<in> set ''order''" by (simp only:)
  with assms(1) show False by (auto simp: isUpper_def)
qed

lemma paramKey_leftmost:
  assumes n: "n = pre @ p @ u # ls @ post"
    and c: "p \<noteq> []" "list_all isLower p" "isUpper u" "ls \<noteq> []" "list_all isLower ls"
    and g: "post = [] \<or> \<not> isLower (hd post)"
    and l: "\<forall>i<length pre. \<not> argReAt (drop i n)"
  shows "paramKey n = Some (p, ToLower (u # ls))"
proof -
  have m: "argRe_matchAt (p @ u # ls @ post) = Some (p, u # ls)"
    using c g by (rule argRe_matchAt_greedy)
  have "\<forall>i<length pre. argRe_matchAt (drop i (pre @ p @ u # ls @ post)) = None"
    using l unfolding n argReAt_iff by (simp only: not_not)
  from argRe_Find_leftmost [OF m this]
  have f: "argRe_FindStringSubmatch n = Some (p, u # ls)" unfolding n .
  have "u \<in> set n" unfolding n by simp
  with c(3) have "n \<noteq> ''order''" by (rule mem_not_order)
  then show ?thesis unfolding paramKey_def f by simp
qed

lemma paramKey_Some:
  assumes "paramKey n = Some (p, q)"
  shows "\<exists>pre u ls post. n = pre @ p @ u # ls @ post \<and> q = ToLower (u # ls)
            \<and> p \<noteq> [] \<and> list_all isLower p \<and> isUpper u \<and> ls \<noteq> [] \<and> list_all isLower ls
            \<and> (post = [] \<or> \<not> isLower (hd post))
            \<and> (\<forall>i<length pre. \<not> argReAt (drop i n))"
proof -
  from assms have no: "n \<noteq> ''order''"
    by (auto simp: paramKey_def split: if_splits)
  with assms obtain m where f: "argRe_FindStringSubmatch n = Some (p, m)" and q: "q = ToLower m"
    by (auto simp: paramKey_def split: option.splits)
  from argRe_Find_Some [OF f] obtain pre s where ps: "n = pre @ s" "argRe_matchAt s = Some (p, m)"
    "\<forall>i<length pre. argRe_matchAt (drop i n) = None" by blast
  from argRe_matchAt_exact [OF ps(2)] obtain u ls post where
    x: "s = p @ (u # ls) @ post" "m = u # ls" "p \<noteq> []" "list_all isLower p" "isUpper u" "ls \<noteq> []"
       "list_all isLower ls" "post = [] \<or> \<not> isLower (hd post)"
    by blast
  have 1: "n = pre @ p @ u # ls @ post" unfolding ps(1) x(1) by simp
  have 2: "q = ToLower (u # ls)" unfolding q x(2) ..
  have 3: "\<forall>i<length pre. \<not> argReAt (drop i n)" using ps(3) unfolding argReAt_iff by (simp only: not_not)
  have "n = pre @ p @ u # ls @ post \<and> q = ToLower (u # ls)
            \<and> p \<noteq> [] \<and> list_all isLower p \<and> isUpper u \<and> ls \<noteq> [] \<and> list_all isLower ls
            \<and> (post = [] \<or> \<not> isLower (hd post))
            \<and> (\<forall>i<length pre. \<not> argReAt (drop i n))"
    using 1 2 3 x(3-8) by (intro conjI)
  then show ?thesis by (intro exI)
qed

lemma paramKey_None: "(paramKey n = None) = (n = ''order'' \<or> (\<forall>i. \<not> argReAt (drop i n)))"
proof (cases "n = ''order''")
  case True
  then show ?thesis by (simp add: paramKey_order)
next
  case False
  have "(paramKey n = None) = (argRe_FindStringSubmatch n = None)"
    using False by (auto simp: paramKey_def split: option.splits)
  also have "\<dots> = (\<forall>i. \<not> argReAt (drop i n))"
    unfolding argRe_Find_None argReAt_iff by (simp only: not_not)
  finally show ?thesis using False by blast
qed

text \<open>
  C10. As amended: a key of the directive field's tag other than \<^verbatim>\<open>order\<close> is stored where the
  leftmost match of \<^verbatim>\<open>([a-z]+)([A-Z][a-z]+)\<close> anywhere in the key says; the pattern is not
  anchored, so the key need not consist of the match alone. (1) The plan holds \<open>val\<close> as
  \<^verbatim>\<open>params[p][q]\<close> exactly if some key of the tag yields the pair \<open>(p, q)\<close> and \<open>val\<close> is the value
  of the last such key in the order in which the map of the tag is visited; so of several keys
  that yield the same pair the one visited last wins, and keys that yield no pair store nothing.
  (2) A key \<open>pre @ a @ c # ls @ post\<close>, where \<open>a\<close> and \<open>ls\<close> are non-empty runs of lower-case
  letters, \<open>c\<close> is an upper-case letter, \<open>post\<close> does not start with a lower-case letter and no
  match starts inside \<open>pre\<close>, yields the pair \<open>(a, lowercase(c # ls))\<close>: what the key has before
  and after the match is dropped. (3) Every key that yields a pair has this form. (4) A key
  yields no pair exactly if it is \<^verbatim>\<open>order\<close> or no match starts anywhere in it.
\<close>

theorem directive_params:
  assumes gf: "FieldByName t ''gofigure'' = Some gf"
    and ok: "ParseStruct S D lib rank t = Inr gfg"
  shows "hasParam gfg p q val
         = (let ms = filter (\<lambda>kv. paramKey (fst kv) = Some (p, q))
                       (rangeMap rank (getStructTags lib (Tag gf)))
            in ms \<noteq> [] \<and> snd (last ms) = val)
       \<and> (n = pre @ a @ c # ls @ post \<and> a \<noteq> [] \<and> list_all isLower a \<and> isUpper c
            \<and> ls \<noteq> [] \<and> list_all isLower ls \<and> (post = [] \<or> \<not> isLower (hd post))
            \<and> (\<forall>i<length pre. \<not> argReAt (drop i n))
          \<longrightarrow> paramKey n = Some (a, ToLower (c # ls)))
       \<and> (paramKey n' = Some (p', q')
          \<longrightarrow> (\<exists>pre u ls post. n' = pre @ p' @ u # ls @ post \<and> q' = ToLower (u # ls)
                 \<and> p' \<noteq> [] \<and> list_all isLower p' \<and> isUpper u \<and> ls \<noteq> [] \<and> list_all isLower ls
                 \<and> (post = [] \<or> \<not> isLower (hd post))
                 \<and> (\<forall>i<length pre. \<not> argReAt (drop i n'))))
       \<and> (paramKey k = None) = (k = ''order'' \<or> (\<forall>i. \<not> argReAt (drop i k)))"
proof -
  let ?tags = "getStructTags lib (Tag gf)"
  let ?g0 = "\<lparr>order = D, params = Map.empty, fieldsM = []\<rparr>"
  obtain g1 where r: "parseGofigureField_range S (rangeMap rank ?tags) ?g0 = Inr g1"
    and g: "gfg = parseFields lib t g1"
    using ok gf by (auto simp: ParseStruct_def parseGofigureField_def split: sum.splits)
  have e: "hasParam ?g0 p q val = False" by (simp add: hasParam_def)
  have 1: "hasParam gfg p q val
         = (let ms = filter (\<lambda>kv. paramKey (fst kv) = Some (p, q)) (rangeMap rank ?tags)
            in ms \<noteq> [] \<and> snd (last ms) = val)"
    unfolding g hasParam_parseFields range_last [OF r] e Let_def
    by (cases "filter (\<lambda>kv. paramKey (fst kv) = Some (p, q)) (rangeMap rank ?tags) = []")
      (simp_all only: if_True if_False not_True_eq_False not_False_eq_True simp_thms)
  have 2: "n = pre @ a @ c # ls @ post \<and> a \<noteq> [] \<and> list_all isLower a \<and> isUpper c
            \<and> ls \<noteq> [] \<and> list_all isLower ls \<and> (post = [] \<or> \<not> isLower (hd post))
            \<and> (\<forall>i<length pre. \<not> argReAt (drop i n))
          \<longrightarrow> paramKey n = Some (a, ToLower (c # ls))"
  proof (intro impI, elim conjE)
    assume "n = pre @ a @ c # ls @ post" "a \<noteq> []" "list_all isLower a" "isUpper c"
      "ls \<noteq> []" "list_all isLower ls" "post = [] \<or> \<not> isLower (hd post)"
      "\<forall>i<length pre. \<not> argReAt (drop i n)"
    then show "paramKey n = Some (a, ToLower (c # ls))" by (rule paramKey_leftmost)
  qed
  have 3: "paramKey n' = Some (p', q')
          \<longrightarrow> (\<exists>pre u ls post. n' = pre @ p' @ u # ls @ post \<and> q' = ToLower (u # ls)
                 \<and> p' \<noteq> [] \<and> list_all isLower p' \<and> isUpper u \<and> ls \<noteq> [] \<and> list_all isLower ls
                 \<and> (post = [] \<or> \<not> isLower (hd post))
                 \<and> (\<forall>i<length pre. \<not> argReAt (drop i n')))"
    using paramKey_Some [of n' p' q'] by (rule impI)
  from 1 2 3 paramKey_None [of k] show ?thesis by (intro conjI)
qed

lemma tags_collidingDirective:
  "getStructTags plainLib ''envPrefix:\"A\" x-envPrefix2:\"B\" debug:\"1\"''
   = [(''envPrefix'', ''A''), (''x-envPrefix2'', ''B''), (''debug'', ''1'')]"
  by code_simp

lemma tags_prefix2Directive: "getStructTags plainLib ''envPrefix2:\"APP\"'' = [(''envPrefix2'', ''APP'')]"
  by code_simp

lemmas key_defs =
  paramKey_def argRe_matchAt_def isLower_def isUpper_def ToLower_def toLowerChar_def Let_def

lemma keys_collidingDirective:
  "paramKey ''envPrefix'' = Some (''env'', ''prefix'')"
  "paramKey ''debug'' = None"
  by (simp_all add: key_defs)

lemma no_match_before_env:
  "\<forall>i<length ''x-''. \<not> argReAt (drop i ''x-envPrefix2'')"
proof (intro allI impI)
  fix i :: nat assume "i < length ''x-''"
  then have "i = 0 \<or> i = 1" by auto
  then show "\<not> argReAt (drop i ''x-envPrefix2'')"
    unfolding argReAt_iff by (auto simp: argRe_matchAt_def isLower_def isUpper_def Let_def)
qed

theorem directive_params_witness:
  "(case ParseStruct (twoSources [] [] [] []) [''env'', ''flag''] plainLib length collidingDirective of
      Inl e \<Rightarrow> False
    | Inr gfg \<Rightarrow> hasParam gfg ''env'' ''prefix'' ''B'' \<and> \<not> hasParam gfg ''env'' ''prefix'' ''A''
                \<and> \<not> hasParam gfg ''env'' ''prefix2'' ''B'' \<and> \<not> hasParam gfg ''debug'' [] ''1'')
   \<and> (case ParseStruct (twoSources [] [] [] []) [''env'', ''flag''] plainLib (\<lambda>k. 20 - length k)
            collidingDirective of
        Inl e \<Rightarrow> False
      | Inr gfg \<Rightarrow> hasParam gfg ''env'' ''prefix'' ''A'' \<and> \<not> hasParam gfg ''env'' ''prefix'' ''B'')
   \<and> paramKey ''x-envPrefix2'' = Some (''env'', ''prefix'')
   \<and> (\<exists>pre u ls post. ''envPrefix'' = pre @ ''env'' @ u # ls @ post \<and> ''prefix'' = ToLower (u # ls)
         \<and> (\<forall>i<length pre. \<not> argReAt (drop i ''envPrefix'')))
   \<and> (\<forall>i. \<not> argReAt (drop i ''debug''))"
proof -
  let ?S = "twoSources [] [] [] []"
  let ?D = "[''env'', ''flag'']"
  let ?r = "\<lambda>k :: string. 20 - length k"
  let ?gf = "fieldOf ''gofigure'' Interface Invalid ''envPrefix:\"A\" x-envPrefix2:\"B\" debug:\"1\"''"
  let ?tags = "[(''envPrefix'', ''A''), (''x-envPrefix2'', ''B''), (''debug'', ''1'')]"
  have gf: "FieldByName collidingDirective ''gofigure'' = Some ?gf"
    by (simp add: FieldByName_def collidingDirective_def fieldOf_def)
  have tags: "getStructTags plainLib (Tag ?gf) = ?tags"
    by (simp add: fieldOf_def tags_collidingDirective)
  have kx: "paramKey ''x-envPrefix2'' = Some (''env'', ''prefix'')"
    by (simp add: key_defs)
  let ?G1 = "\<lparr>order = ?D, params = [''env'' \<mapsto> [(''prefix'', ''B'')]], fieldsM = []\<rparr>"
  let ?G2 = "\<lparr>order = ?D, params = [''env'' \<mapsto> [(''prefix'', ''A'')]], fieldsM = []\<rparr>"
  have rng1: "parseGofigureField_range ?S (rangeMap length ?tags)
                \<lparr>order = ?D, params = Map.empty, fieldsM = []\<rparr> = Inr ?G1"
    by (simp add: rangeMap_def argRe_matchAt_def isLower_def isUpper_def ToLower_def
        toLowerChar_def Let_def)
  have rng2: "parseGofigureField_range ?S (rangeMap ?r ?tags)
                \<lparr>order = ?D, params = Map.empty, fieldsM = []\<rparr> = Inr ?G2"
    by (simp add: rangeMap_def argRe_matchAt_def isLower_def isUpper_def ToLower_def
        toLowerChar_def Let_def)
  define g1 where "g1 = parseFields plainLib collidingDirective ?G1"
  define g2 where "g2 = parseFields plainLib collidingDirective ?G2"
  have ok1: "ParseStruct ?S ?D plainLib length collidingDirective = Inr g1"
    unfolding g1_def
    by (simp only: ParseStruct_def parseGofigureField_def gf option.case tags rng1 sum.case)
  have ok2: "ParseStruct ?S ?D plainLib ?r collidingDirective = Inr g2"
    unfolding g2_def
    by (simp only: ParseStruct_def parseGofigureField_def gf option.case tags rng2 sum.case)
  have ms1: "filter (\<lambda>kv. paramKey (fst kv) = Some (''env'', ''prefix'')) (rangeMap length ?tags)
             = [(''envPrefix'', ''A''), (''x-envPrefix2'', ''B'')]"
    by (simp add: rangeMap_def keys_collidingDirective kx)
  have ms2: "filter (\<lambda>kv. paramKey (fst kv) = Some (''env'', ''prefix'')) (rangeMap ?r ?tags)
             = [(''x-envPrefix2'', ''B''), (''envPrefix'', ''A'')]"
    by (simp add: rangeMap_def keys_collidingDirective kx)
  have ms3: "filter (\<lambda>kv. paramKey (fst kv) = Some (''env'', ''prefix2'')) (rangeMap length ?tags) = []"
    by (simp add: rangeMap_def keys_collidingDirective kx)
  have ms4: "filter (\<lambda>kv. paramKey (fst kv) = Some (''debug'', [])) (rangeMap length ?tags) = []"
    by (simp add: rangeMap_def keys_collidingDirective kx)
  have dec: "''x-envPrefix2'' = ''x-'' @ ''env'' @ CHR ''P'' # ''refix'' @ ''2''
             \<and> ''env'' \<noteq> [] \<and> list_all isLower ''env'' \<and> isUpper (CHR ''P'')
             \<and> ''refix'' \<noteq> [] \<and> list_all isLower ''refix''
             \<and> (''2'' = [] \<or> \<not> isLower (hd ''2''))"
    by (simp add: isLower_def isUpper_def)
  note inst1 = directive_params [OF gf ok1, unfolded tags, where p = "''env''" and q = "''prefix''"
      and n = "''x-envPrefix2''" and pre = "''x-''" and a = "''env''" and c = "CHR ''P''"
      and ls = "''refix''" and post = "''2''" and n' = "''envPrefix''" and p' = "''env''"
      and q' = "''prefix''" and k = "''debug''"]
  have 1: "hasParam g1 ''env'' ''prefix'' ''B''"
    using inst1 [where val = "''B''"] unfolding ms1 by simp
  have 2: "\<not> hasParam g1 ''env'' ''prefix'' ''A''"
    using inst1 [where val = "''A''"] unfolding ms1 by simp
  have 3: "\<not> hasParam g1 ''env'' ''prefix2'' ''B''"
    using directive_params [OF gf ok1, unfolded tags, where p = "''env''" and q = "''prefix2''"
        and val = "''B''"]
    unfolding ms3 by simp
  have 4: "\<not> hasParam g1 ''debug'' [] ''1''"
    using directive_params [OF gf ok1, unfolded tags, where p = "''debug''" and q = "[]"
        and val = "''1''"]
    unfolding ms4 by simp
  have 5: "hasParam g2 ''env'' ''prefix'' ''A'' \<and> \<not> hasParam g2 ''env'' ''prefix'' ''B''"
    using directive_params [OF gf ok2, unfolded tags, where p = "''env''" and q = "''prefix''"
        and val = "''A''"]
      directive_params [OF gf ok2, unfolded tags, where p = "''env''" and q = "''prefix''"
        and val = "''B''"]
    unfolding ms2 by simp
  have 6: "paramKey ''x-envPrefix2'' = Some (''env'', ToLower ''Prefix'')"
    using inst1 [where val = "''B''"] dec no_match_before_env by blast
  have 7: "\<exists>pre u ls post. ''envPrefix'' = pre @ ''env'' @ u # ls @ post \<and> ''prefix'' = ToLower (u # ls)
         \<and> (\<forall>i<length pre. \<not> argReAt (drop i ''envPrefix''))"
    using inst1 [where val = "''B''"] keys_collidingDirective(1) by blast
  have 8: "\<forall>i. \<not> argReAt (drop i ''debug'')"
    using inst1 [where val = "''B''"] keys_collidingDirective(2) by simp
  have k6: "paramKey ''x-envPrefix2'' = Some (''env'', ''prefix'')"
    using 6 by (simp add: ToLower_def toLowerChar_def isUpper_def)
  from 1 2 3 4 5 k6 7 8 show ?thesis unfolding ok1 ok2 by simp
qed

text \<open>
  The claim as stated fails for the key \<^verbatim>\<open>envPrefix2\<close>, a lower-case prefix and a suffix that
  starts upper-case: its value is stored as \<^verbatim>\<open>params["env"]["prefix"]\<close>, not under
  \<^verbatim>\<open>prefix2\<close>, and the key is not ignored either.
\<close>

theorem prefix2_stored_as_prefix:
  "case ParseStruct (twoSources [] [] [] []) [''env'', ''flag''] plainLib (\<lambda>k. 0) prefix2Directive of
     Inl e \<Rightarrow> False
   | Inr gfg \<Rightarrow> params gfg ''env'' = Some [(''prefix'', ''APP'')]
               \<and> ToLower ''Prefix2'' = ''prefix2''
               \<and> \<not> hasParam gfg ''env'' ''prefix2'' ''APP''
               \<and> hasParam gfg ''env'' ''prefix'' ''APP''"
  by (simp add: ParseStruct_def parseGofigureField_def FieldByName_def prefix2Directive_def fieldOf_def
      tags_prefix2Directive rangeMap_def argRe_matchAt_def isLower_def isUpper_def ToLower_def
      toLowerChar_def Let_def parseFields_def hasParam_def params_parseFields_loop)

section \<open>Cleanup\<close>

lemma cleanupSources_loop_registered:
  "list_all (\<lambda>n. S n \<noteq> None) os \<Longrightarrow>
   cleanupSources_loop S os W = (None, (runCleanups S os (fst W), snd W @ map EvCleanup os))"
proof (induction os arbitrary: W)
  case Nil
  then show ?case by simp
next
  case (Cons n os)
  then obtain src where src: "S n = Some src" by auto
  from Cons.prems have "list_all (\<lambda>n. S n \<noteq> None) os" by simp
  from Cons.IH [OF this, of "(Cleanup src (fst W), snd W @ [EvCleanup n])"] src
  show ?case by (simp add: callCleanup_def)
qed

lemma call_withCleanup:
  "callInit (withCleanup c S) n args W = callInit S n args W"
  "callRegister (withCleanup c S) n kn ks ty W = callRegister S n kn ks ty W"
  "callGet (withCleanup c S) n kn p W = callGet S n kn p W"
  "callGetArray (withCleanup c S) n kn pa W = callGetArray S n kn pa W"
  by (simp_all add: withCleanup_def callInit_def callRegister_def callGet_def callGetArray_def
      split: option.splits)

lemma initSources_loop_withCleanup:
  "initSources_loop (withCleanup c S) gfg os W = initSources_loop S gfg os W"
  by (induction os arbitrary: W) (simp_all add: call_withCleanup split: prod.splits option.splits)

lemma registerFields_order_withCleanup:
  "registerFields_order (withCleanup c S) gfi os W = registerFields_order S gfi os W"
  by (induction os arbitrary: W) (simp_all add: call_withCleanup split: prod.splits option.splits)

lemma registerFields_loop_withCleanup:
  "registerFields_loop (withCleanup c S) ord gfis W = registerFields_loop S ord gfis W"
  by (induction gfis arbitrary: W)
     (simp_all add: registerFields_order_withCleanup split: prod.splits option.splits)

lemma populateDefaultType_loop_withCleanup:
  "populateDefaultType_loop (withCleanup c S) lib gfi os p vW = populateDefaultType_loop S lib gfi os p vW"
proof (induction os arbitrary: p vW)
  case Nil
  show ?case by (cases vW) simp
next
  case (Cons n os)
  obtain v W where vW: "vW = (v, W)" by (cases vW)
  show ?case unfolding vW
    by (simp add: call_withCleanup Cons.IH split: prod.splits sum.splits)
qed

lemma populateSliceType_loop_withCleanup:
  "populateSliceType_loop (withCleanup c S) gfi os p vW = populateSliceType_loop S gfi os p vW"
proof (induction os arbitrary: vW)
  case Nil
  show ?case by (cases vW) simp
next
  case (Cons n os)
  obtain v W where vW: "vW = (v, W)" by (cases vW)
  show ?case unfolding vW
    by (simp add: call_withCleanup Cons.IH split: prod.splits sum.splits option.splits)
qed

lemma populateStruct_switch_withCleanup:
  "populateStruct_switch (withCleanup c S) lib ord gfi vW = populateStruct_switch S lib ord gfi vW"
  by (cases "Kind (Typ (goField gfi))")
     (simp_all add: populateStruct_switch_def populateDefaultType_def populateSliceType_def
        populateDefaultType_loop_withCleanup populateSliceType_loop_withCleanup)

lemma populateStruct_loop_withCleanup:
  "populateStruct_loop (withCleanup c S) lib ord gfis vW = populateStruct_loop S lib ord gfis vW"
  by (induction gfis arbitrary: vW)
     (simp_all add: populateStruct_switch_withCleanup split: prod.splits option.splits)

lemma phases_withCleanup:
  "initSources (withCleanup c S) gfg W = initSources S gfg W"
  "registerFields (withCleanup c S) rank gfg W = registerFields S rank gfg W"
  "populateStruct (withCleanup c S) lib rank gfg vW = populateStruct S lib rank gfg vW"
  by (simp_all add: initSources_def registerFields_def populateStruct_def
      initSources_loop_withCleanup registerFields_loop_withCleanup populateStruct_loop_withCleanup)

lemma applyPhases_withCleanup:
  "applyPhases (withCleanup c S) lib rankR rankP gfg vW = applyPhases S lib rankR rankP gfg vW"
  by (simp add: applyPhases_def phases_withCleanup split: prod.splits option.splits)

lemma range_order_registered:
  "parseGofigureField_range S ((''order'', val) # rest) gfg = Inr gfg' \<Longrightarrow>
   list_all (\<lambda>n. S n \<noteq> None) (Split val (CHR '','')) \<and>
   parseGofigureField_range S rest (gfg\<lparr>order := Split val (CHR '','')\<rparr>) = Inr gfg'"
  by (simp add: Let_def list_all_iff list_ex_iff split: if_splits)

lemma range_registered:
  assumes "parseGofigureField_range S kvs gfg = Inr gfg'"
    and "list_all (\<lambda>n. S n \<noteq> None) (order gfg)"
  shows "list_all (\<lambda>n. S n \<noteq> None) (order gfg')"
  using assms
proof (induction kvs arbitrary: gfg)
  case Nil
  then show ?case by simp
next
  case (Cons kv kvs)
  obtain n v where kv: "kv = (n, v)" by (cases kv)
  show ?case
  proof (cases "n = ''order''")
    case True
    from range_order_registered [OF Cons.prems(1) [unfolded kv True]]
    have reg: "list_all (\<lambda>n. S n \<noteq> None) (Split v (CHR '',''))"
      and run: "parseGofigureField_range S kvs (gfg\<lparr>order := Split v (CHR '','')\<rparr>) = Inr gfg'"
      by blast+
    from reg have "list_all (\<lambda>n. S n \<noteq> None) (order (gfg\<lparr>order := Split v (CHR '','')\<rparr>))"
      by simp
    from Cons.IH [OF run this] show ?thesis .
  next
    case False
    from Cons.prems(1) have run: "parseGofigureField_range S kvs (storeParam n v gfg) = Inr gfg'"
      unfolding kv by (simp only: range_param_step [OF False])
    have "order (storeParam n v gfg) = order gfg"
      by (simp add: storeParam_def split: option.splits)
    with Cons.prems(2) have "list_all (\<lambda>n. S n \<noteq> None) (order (storeParam n v gfg))"
      by simp
    from Cons.IH [OF run this] show ?thesis .
  qed
qed

lemma ParseStruct_registered:
  assumes "list_all (\<lambda>n. S n \<noteq> None) D"
    and "ParseStruct S D lib rank t = Inr gfg"
  shows "list_all (\<lambda>n. S n \<noteq> None) (order gfg)"
proof -
  let ?g0 = "\<lparr>order = D, params = Map.empty, fieldsM = []\<rparr>"
  from assms(2) obtain g1 where p: "parseGofigureField S lib rank t ?g0 = Inr g1"
    and g: "gfg = parseFields lib t g1"
    by (auto simp: ParseStruct_def split: sum.splits)
  have "list_all (\<lambda>n. S n \<noteq> None) (order g1)"
  proof (cases "FieldByName t ''gofigure''")
    case None
    with p have "g1 = ?g0" by (simp add: parseGofigureField_def)
    with assms(1) show ?thesis by simp
  next
    case (Some gf)
    with p have "parseGofigureField_range S (rangeMap rank (getStructTags lib (Tag gf))) ?g0 = Inr g1"
      by (simp add: parseGofigureField_def)
    from range_registered [OF this] assms(1) show ?thesis by simp
  qed
  then show ?thesis unfolding g by (simp add: parseFields_def order_parseFields_loop)
qed

text \<open>
  C5. As amended: \<^verbatim>\<open>Cleanup\<close> is called once per entry of \<^verbatim>\<open>order\<close>, not once per source: a
  source that \<^verbatim>\<open>order\<close> names twice is cleaned up twice. For every plan that \<^verbatim>\<open>ParseStruct\<close>
  builds when the names of \<^verbatim>\<open>DefaultOrder\<close> are registered, and whatever the three phases
  \<^verbatim>\<open>initSources\<close>, \<^verbatim>\<open>registerFields\<close> and \<^verbatim>\<open>populateStruct\<close> return (success, or the error at
  which they stop): \<^verbatim>\<open>Apply\<close> returns that result and that record; the state of the sources is
  the one the phases left, with the \<^verbatim>\<open>Cleanup\<close> of each entry of \<^verbatim>\<open>order\<close> applied to it from left
  to right; the log is the log of the phases followed by one \<^verbatim>\<open>Cleanup\<close> call per entry of
  \<^verbatim>\<open>order\<close>, in order position; \<^verbatim>\<open>Gofigure\<close> is that run of \<^verbatim>\<open>Apply\<close>; and the phases call no
  \<^verbatim>\<open>Cleanup\<close>: their log has none, and they return the same whatever the \<^verbatim>\<open>Cleanup\<close> functions
  of the sources are.
\<close>

theorem Apply_cleanup:
  assumes dflt: "list_all (\<lambda>n. S n \<noteq> None) D"
    and plan: "ParseStruct S D lib rankT t = Inr gfg"
    and ph: "applyPhases S lib rankR rankP gfg (v, W) = (r, v1, W1)"
  shows "Apply S lib rankR rankP gfg (v, W)
           = (r, v1, (runCleanups S (order gfg) (fst W1), snd W1 @ map EvCleanup (order gfg)))
       \<and> Gofigure S D lib rankT rankR rankP t (v, W) = Apply S lib rankR rankP gfg (v, W)
       \<and> (\<exists>pre. snd W1 = snd W @ pre \<and> list_all (\<lambda>e. \<not> isCleanup e) pre)
       \<and> (\<forall>c. applyPhases (withCleanup c S) lib rankR rankP gfg (v, W) = (r, v1, W1))"
proof -
  have reg: "list_all (\<lambda>n. S n \<noteq> None) (order gfg)"
    using dflt plan by (rule ParseStruct_registered)
  have 1: "Apply S lib rankR rankP gfg (v, W)
           = (r, v1, (runCleanups S (order gfg) (fst W1), snd W1 @ map EvCleanup (order gfg)))"
    by (simp add: Apply_def ph cleanupSources_def cleanupSources_loop_registered [OF reg])
  have 2: "Gofigure S D lib rankT rankR rankP t (v, W) = Apply S lib rankR rankP gfg (v, W)"
    by (simp add: Gofigure_def plan)
  from ph have "extends W W1" by (rule extends_applyPhases)
  then have 3: "\<exists>pre. snd W1 = snd W @ pre \<and> list_all (\<lambda>e. \<not> isCleanup e) pre"
    by (simp only: extends_def)
  have 4: "\<forall>c. applyPhases (withCleanup c S) lib rankR rankP gfg (v, W) = (r, v1, W1)"
    by (simp add: applyPhases_withCleanup ph)
  from 1 2 3 4 show ?thesis by blast
qed

lemma tags_flag_env: "getStructTags plainLib ''order:\"flag,env\"'' = [(''order'', ''flag,env'')]"
  by code_simp

lemma tags_env_env: "getStructTags plainLib ''order:\"env,env\"'' = [(''order'', ''env,env'')]"
  by code_simp

theorem Apply_cleanup_witness:
  "Gofigure (namedSources True False) [''env'', ''flag''] plainLib (\<lambda>k. 0) (\<lambda>k. 0) (\<lambda>k. 0)
     (orderedRecord ''order:\"flag,env\"'') (\<lambda>i. StringV ''x'', ([], []))
   = (Some (SourceError ''flag''), \<lambda>i. StringV ''x'',
      ([''flag'', ''env''], [EvInit ''flag'', EvCleanup ''flag'', EvCleanup ''env'']))"
proof -
  let ?S = "namedSources True False"
  let ?t = "orderedRecord ''order:\"flag,env\"''"
  let ?v = "(\<lambda>i. StringV ''x'') :: int Store"
  let ?G = "\<lparr>order = [''flag'', ''env''], params = Map.empty, fieldsM = []\<rparr>"
  define gfg where "gfg = parseFields plainLib ?t ?G"
  have dflt: "list_all (\<lambda>n. ?S n \<noteq> None) [''env'', ''flag'']"
    by (simp add: namedSources_def)
  have plan: "ParseStruct ?S [''env'', ''flag''] plainLib (\<lambda>k. 0) ?t = Inr gfg"
    unfolding gfg_def
    by (simp add: ParseStruct_def parseGofigureField_def FieldByName_def orderedRecord_def fieldOf_def
        tags_flag_env rangeMap_def namedSources_def)
  have ord: "order gfg = [''flag'', ''env'']" and par: "params gfg = Map.empty"
    unfolding gfg_def by (simp_all add: parseFields_def order_parseFields_loop params_parseFields_loop)
  have ph: "applyPhases ?S plainLib (\<lambda>k. 0) (\<lambda>k. 0) gfg (?v, ([], []))
            = (Some (SourceError ''flag''), ?v, ([], [EvInit ''flag'']))"
    by (simp add: applyPhases_def initSources_def ord par callInit_def namedSources_def namedSource_def)
  from Apply_cleanup [OF dflt plan ph]
  have "Gofigure ?S [''env'', ''flag''] plainLib (\<lambda>k. 0) (\<lambda>k. 0) (\<lambda>k. 0) ?t (?v, ([], []))
        = (Some (SourceError ''flag''), ?v,
           (runCleanups ?S (order gfg) (fst ([], [EvInit ''flag''])),
            snd ([], [EvInit ''flag'']) @ map EvCleanup (order gfg)))"
    by simp
  then show ?thesis
    by (simp add: ord namedSources_def namedSource_def)
qed

text \<open>
  The claim as stated fails for the tag \<^verbatim>\<open>order:"env,env"\<close>: the one source named in the order is
  initialised twice and cleaned up twice. The state of the sources is the list of the \<^verbatim>\<open>Cleanup\<close>
  calls that were made.
\<close>

theorem source_named_twice:
  "fst (Gofigure (namedSources True True) [''env'', ''flag''] plainLib (\<lambda>k. 0) (\<lambda>k. 0) (\<lambda>k. 0)
     (orderedRecord ''order:\"env,env\"'') (\<lambda>i. StringV ''x'', ([], []))) = None
   \<and> snd (snd (Gofigure (namedSources True True) [''env'', ''flag''] plainLib (\<lambda>k. 0) (\<lambda>k. 0) (\<lambda>k. 0)
     (orderedRecord ''order:\"env,env\"'') (\<lambda>i. StringV ''x'', ([], []))))
     = ([''env'', ''env''],
        [EvInit ''env'', EvInit ''env'', EvRegister ''env'' ''Name'', EvRegister ''env'' ''Name'',
         EvGet ''env'' ''Name'' None, EvGet ''env'' ''Name'' (Some []),
         EvCleanup ''env'', EvCleanup ''env''])"
proof -
  let ?S = "namedSources True True"
  let ?G = "\<lparr>order = [''env'', ''env''], params = Map.empty,
            fieldsM = [(''Name'', \<lparr>keys = [], field = ''Name'',
                                  goField = fieldOf ''Name'' String Invalid [], goValue = 1\<rparr>)]\<rparr>"
  have plan: "ParseStruct ?S [''env'', ''flag''] plainLib (\<lambda>k. 0) (orderedRecord ''order:\"env,env\"'')
              = Inr ?G"
    by (simp add: ParseStruct_def parseGofigureField_def FieldByName_def orderedRecord_def fieldOf_def
        tags_env_env rangeMap_def namedSources_def parseFields_def upt_rec Let_def)
  show ?thesis
    unfolding Gofigure_def plan
    by (simp add: Apply_def applyPhases_def initSources_def registerFields_def populateStruct_def
        cleanupSources_def populateStruct_switch_def rangeMap_def run_defs namedSources_def
        namedSource_def)
qed

section \<open>The environment prefix\<close>



section \<open>Empty strings\<close>

lemma ParseUint_zero: "0 < b \<Longrightarrow> ParseUint ''0'' b = Inr 0"
  by (simp add: ParseUint_def isDigit_def digitVal_def)

lemma ParseInt_zero: "0 < b \<Longrightarrow> ParseInt ''0'' b = Inr 0"
  by (simp add: ParseInt_def ParseUint_def isDigit_def digitVal_def Let_def)

text \<open>
  C8. The empty string is replaced by \<^verbatim>\<open>"0"\<close> before a number is parsed. A Bool field is set
  to false by it, a field of any signed or unsigned integer kind to 0, and a float field to what
  \<^verbatim>\<open>ParseFloat\<close> returns for \<^verbatim>\<open>"0"\<close>, which is zero.
\<close>

theorem empty_string_coercion:
  assumes "ParseFloat lib ''0'' 32 = Inr z32" and "ParseFloat lib ''0'' 64 = Inr z64"
  shows "numVal [] = ''0''
       \<and> populateDefaultType_switch lib Bool [] = Inr (BoolV False)
       \<and> list_all (\<lambda>k. populateDefaultType_switch lib k [] = Inr (IntV 0)) [IntK, Int8, Int16, Int32, Int64]
       \<and> list_all (\<lambda>k. populateDefaultType_switch lib k [] = Inr (UintV 0)) [Uint, Uint8, Uint16, Uint32, Uint64]
       \<and> populateDefaultType_switch lib Float32 [] = Inr (FloatV z32)
       \<and> populateDefaultType_switch lib Float64 [] = Inr (FloatV z64)"
  using assms
  by (simp add: populateDefaultType_switch_def numVal_def setInt_def setUint_def setFloat_def
      ParseBool_def ParseInt_zero ParseUint_zero)

theorem empty_string_coercion_witness:
  "populateDefaultType_switch plainLib Bool [] = Inr (BoolV False)
   \<and> populateDefaultType_switch plainLib Int8 [] = Inr (IntV 0)
   \<and> populateDefaultType_switch plainLib Uint64 [] = Inr (UintV 0)
   \<and> populateDefaultType_switch plainLib Float32 [] = Inr (FloatV 0)
   \<and> populateDefaultType_switch plainLib Float64 [] = Inr (FloatV 0)"
  using empty_string_coercion [of plainLib 0 0] by (simp add: plainLib_def)


end
